theory Spec2Isabelle
  imports Main "HOL-Library.Word" "HOL-Library.Multiset"
begin

section \<open>Vectors and row batches\<close>

text \<open>
  A flat vector is the list of its values; \<open>None\<close> is a null. A \<open>RowVector\<close> keeps its
  number of rows and its child columns, as the engine does: the batch is columnar, and the
  row at index \<open>r\<close> is read across the children.
\<close>

type_synonym val = "int option"
type_synonym column = "val list"

record row_vector =
  vsize :: nat
  children :: "column list"

definition rowAt :: "row_vector \<Rightarrow> nat \<Rightarrow> val list" where
  "rowAt v r = map (\<lambda>c. c ! r) (children v)"

definition rowsOf :: "row_vector \<Rightarrow> val list list" where
  "rowsOf v = map (rowAt v) [0..<vsize v]"

definition resizeColumn :: "nat \<Rightarrow> column \<Rightarrow> column" where
  "resizeColumn n c = take n c @ replicate (n - length c) None"

definition resizeRowVector :: "nat \<Rightarrow> row_vector \<Rightarrow> row_vector" where
  "resizeRowVector n v = \<lparr>vsize = n, children = map (resizeColumn n) (children v)\<rparr>"

text \<open>
  \<open>BaseVector::create<RowVector>(outputType_, outputBatchSize_, pool)\<close> followed by the
  resize of every child to \<open>outputBatchSize_\<close> (Merge.cpp, lines 168 to 174). The row type
  is kept as its number of columns.
\<close>

definition createOutput :: "nat \<Rightarrow> nat \<Rightarrow> row_vector" where
  "createOutput ncols n =
     (let v = \<lparr>vsize = n, children = replicate ncols []\<rparr>
      in v\<lparr>children := map (resizeColumn n) (children v)\<rparr>)"

text \<open>
  Modelled from the spec: the selection bitmap (\<open>SelectivityVector\<close>, not among the
  sources). It is a plain bitmap over the slots of the output batch; it has selections iff
  some bit is set, and its selected rows are visited in increasing order.
\<close>

definition selectedRows :: "bool list \<Rightarrow> nat list" where
  "selectedRows bits = filter (\<lambda>r. bits ! r) [0..<length bits]"

definition hasSelections :: "bool list \<Rightarrow> bool" where
  "hasSelections bits = (selectedRows bits \<noteq> [])"

definition clearAll :: "bool list \<Rightarrow> bool list" where
  "clearAll bits = replicate (length bits) False"

text \<open>
  Modelled from the spec: the column-wise \<open>copy\<close> of a vector (\<open>BaseVector::copy\<close>, not
  among the sources): every selected row \<open>r\<close> of the target receives the value of the
  source at \<open>toSourceRow[r]\<close>.
\<close>

definition copyColumn :: "column \<Rightarrow> column \<Rightarrow> nat list \<Rightarrow> nat list \<Rightarrow> column" where
  "copyColumn target src rows toSourceRow =
     fold (\<lambda>r t. t[r := src ! (toSourceRow ! r)]) rows target"

section \<open>Sort keys and the column comparison\<close>

record compare_flags =
  nullsFirst :: bool
  ascending :: bool
  equalsOnly :: bool

type_synonym sort_key = "nat \<times> compare_flags"

text \<open>
  Modelled from the spec: the comparison of two column values (\<open>BaseVector::compare\<close>, not
  among the sources). It returns a value in \<open>{-1, 0, +1}\<close> and respects the ascending and
  nulls-first flags; nulls are compared as values.
\<close>

definition compareValues :: "compare_flags \<Rightarrow> val \<Rightarrow> val \<Rightarrow> int" where
  "compareValues flags a b =
     (case a of
        None \<Rightarrow> (case b of None \<Rightarrow> 0 | Some y \<Rightarrow> (if nullsFirst flags then - 1 else 1))
      | Some x \<Rightarrow>
          (case b of
             None \<Rightarrow> (if nullsFirst flags then 1 else - 1)
           | Some y \<Rightarrow>
               (let result = (if x < y then - 1 else if x = y then 0 else 1)
                in if ascending flags then result else - result)))"

definition compareColumn :: "column \<Rightarrow> column \<Rightarrow> nat \<Rightarrow> nat \<Rightarrow> compare_flags \<Rightarrow> int" where
  "compareColumn this other index otherIndex flags =
     compareValues flags (this ! index) (other ! otherIndex)"

section \<open>Errors, futures and merge sources\<close>

datatype error = VeloxCheckFailed string | NullPointer | IndexOutOfRange

datatype blocking_reason =
  kNotBlocked | kWaitForProducer | kWaitForConsumer | kWaitForSplit | kWaitForMemory

datatype continue_future = EmptyFuture | Future nat

datatype source_event = NotReady continue_future | Batch row_vector

datatype source_kind =
  LocalMergeSource
  | MergeExchangeSource string nat "64 word" nat

record merge_source =
  kind :: source_kind
  events :: "source_event list"
  started :: bool

text \<open>
  Modelled from the spec: \<open>MergeSource::next(&batch, &future)\<close> (MergeSource.cpp is not
  among the sources). What the producer will deliver is the list \<open>events\<close>: a
  \<open>NotReady\<close> event makes one call return blocked with a future, a \<open>Batch\<close> event is
  handed over as the next batch, and the exhausted list is the end of the stream, answered
  with a null batch for ever.
\<close>

definition sourceNext ::
  "merge_source \<Rightarrow> row_vector option \<Rightarrow>
     blocking_reason \<times> row_vector option \<times> continue_future \<times> merge_source" where
  "sourceNext src d =
     (case events src of
        [] \<Rightarrow> (kNotBlocked, None, EmptyFuture, src)
      | NotReady f # es \<Rightarrow> (kWaitForProducer, d, f, src\<lparr>events := es\<rparr>)
      | Batch b # es \<Rightarrow> (kNotBlocked, Some b, EmptyFuture, src\<lparr>events := es\<rparr>))"

definition sourceStart :: "merge_source \<Rightarrow> merge_source" where
  "sourceStart src = src\<lparr>started := True\<rparr>"

section \<open>SourceStream: the cursor over one merge source\<close>

record source_stream =
  streamKeys :: "sort_key list"
  needData :: bool
  atEnd :: bool
  data :: "row_vector option"
  currentSourceRow :: nat
  firstSourceRow :: nat
  outputRows :: "bool list"
  sourceRows :: "nat list"
  keyColumns :: "column list"

text \<open>
  Modelled from the spec: the constructor of \<open>SourceStream\<close> (declared in Merge.h, not
  among the sources). No batch is loaded before the first fetch, the next call should
  fetch, and the selection bitmap covers the slots of one output batch.
\<close>

definition newSourceStream :: "sort_key list \<Rightarrow> nat \<Rightarrow> source_stream" where
  "newSourceStream keys outputBatchSize =
     \<lparr>streamKeys = keys, needData = True, atEnd = False, data = None,
      currentSourceRow = 0, firstSourceRow = 0,
      outputRows = replicate outputBatchSize False,
      sourceRows = replicate outputBatchSize 0,
      keyColumns = replicate (length keys) []\<rparr>"

text \<open>\<open>SourceStream::fetchMoreData\<close>, Merge.cpp lines 279 to 302.\<close>

definition fetchMoreData ::
  "source_stream \<Rightarrow> merge_source \<Rightarrow> continue_future list \<Rightarrow>
     bool \<times> source_stream \<times> merge_source \<times> continue_future list" where
  "fetchMoreData s src futures =
     (case sourceNext src (data s) of
        (reason, d, future, src') \<Rightarrow>
          if reason \<noteq> kNotBlocked then
            (True, s\<lparr>data := d, needData := True\<rparr>, src', futures @ [future])
          else
            (let end = (case d of None \<Rightarrow> True | Some b \<Rightarrow> vsize b = 0);
                 s1 = s\<lparr>data := d, atEnd := end, needData := False, currentSourceRow := 0\<rparr>
             in (False,
                 (if \<not> end
                  then s1\<lparr>keyColumns :=
                         map (\<lambda>key. children (the d) ! fst key) (streamKeys s1)\<rparr>
                  else s1),
                 src', futures)))"

text \<open>
  Modelled from the spec: \<open>SourceStream::isBlocked\<close> and \<open>SourceStream::setOutputRow\<close>
  (both defined in Merge.h, not among the sources). The first fetches when the stream
  needs data. The second marks the slot and returns true iff the current row is the last
  row of the current batch; a slot outside the bitmap is out of range.
\<close>

definition streamIsBlocked ::
  "source_stream \<Rightarrow> merge_source \<Rightarrow> continue_future list \<Rightarrow>
     bool \<times> source_stream \<times> merge_source \<times> continue_future list" where
  "streamIsBlocked s src futures =
     (if needData s then fetchMoreData s src futures else (False, s, src, futures))"

definition setOutputRow :: "source_stream \<Rightarrow> nat \<Rightarrow> error + (bool \<times> source_stream)" where
  "setOutputRow s row =
     (case data s of
        None \<Rightarrow> Inl NullPointer
      | Some d \<Rightarrow>
          if row < length (outputRows s)
          then Inr (Suc (currentSourceRow s) = vsize d,
                    s\<lparr>outputRows := (outputRows s)[row := True]\<rparr>)
          else Inl IndexOutOfRange)"

text \<open>
  Modelled from the spec: \<open>hasData\<close>, the membership of a stream in the tournament: not at
  end, a batch loaded, and the current row inside it.
\<close>

definition hasData :: "source_stream \<Rightarrow> bool" where
  "hasData s =
     (\<not> atEnd s \<and> (case data s of None \<Rightarrow> False | Some d \<Rightarrow> currentSourceRow s < vsize d))"

text \<open>\<open>SourceStream::operator<\<close>, Merge.cpp lines 224 to 241: the loop over the keys.\<close>

fun lessFrom :: "sort_key list \<Rightarrow> nat \<Rightarrow> source_stream \<Rightarrow> source_stream \<Rightarrow> bool" where
  "lessFrom [] i a b = False"
| "lessFrom (key # keys) i a b =
     (let result = compareColumn (keyColumns a ! i) (keyColumns b ! i)
                     (currentSourceRow a) (currentSourceRow b) (snd key)
      in if result \<noteq> 0 then result < 0 else lessFrom keys (Suc i) a b)"

definition streamLess :: "source_stream \<Rightarrow> source_stream \<Rightarrow> bool" where
  "streamLess a b = lessFrom (streamKeys a) 0 a b"

text \<open>\<open>SourceStream::pop\<close>, Merge.cpp lines 243 to 252.\<close>

definition pop ::
  "source_stream \<Rightarrow> merge_source \<Rightarrow> continue_future list \<Rightarrow>
     error + (bool \<times> source_stream \<times> merge_source \<times> continue_future list)" where
  "pop s src futures =
     (case data s of
        None \<Rightarrow> Inl NullPointer
      | Some d \<Rightarrow>
          (let s1 = s\<lparr>currentSourceRow := currentSourceRow s + 1\<rparr>
           in if currentSourceRow s1 = vsize d then
                (if hasSelections (outputRows s1)
                 then Inl (VeloxCheckFailed ''!outputRows_.hasSelections()'')
                 else Inr (fetchMoreData s1 src futures))
              else Inr (False, s1, src, futures)))"

text \<open>
  \<open>SourceStream::copyToOutput\<close>, Merge.cpp lines 254 to 277. \<open>assignSourceRows\<close> is the
  \<open>applyToSelected\<close> loop that fills \<open>sourceRows_\<close> with consecutive source rows.
\<close>

fun assignSourceRows :: "nat list \<Rightarrow> nat \<Rightarrow> nat list \<Rightarrow> nat list \<times> nat" where
  "assignSourceRows [] sourceRow rows = (rows, sourceRow)"
| "assignSourceRows (r # rs) sourceRow rows =
     assignSourceRows rs (Suc sourceRow) (rows[r := sourceRow])"

definition copyToOutput ::
  "source_stream \<Rightarrow> row_vector option \<Rightarrow> error + (source_stream \<times> row_vector option)" where
  "copyToOutput s out =
     (if \<not> hasSelections (outputRows s) then Inr (s, out)
      else
        (case out of
           None \<Rightarrow> Inl NullPointer
         | Some ov \<Rightarrow>
             (case data s of
                None \<Rightarrow> Inl NullPointer
              | Some d \<Rightarrow>
                  (case assignSourceRows (selectedRows (outputRows s))
                          (firstSourceRow s) (sourceRows s) of
                     (rows, sourceRow) \<Rightarrow>
                       Inr (s\<lparr>sourceRows := rows,
                              outputRows := clearAll (outputRows s),
                              firstSourceRow := (if sourceRow = vsize d then 0 else sourceRow)\<rparr>,
                            Some (ov\<lparr>children :=
                              map (\<lambda>i. copyColumn (children ov ! i) (children d ! i)
                                          (selectedRows (outputRows s)) rows)
                                [0..<length (children ov)]\<rparr>))))))"

section \<open>The tournament over the streams\<close>

text \<open>
  Modelled from the spec: \<open>TreeOfLosers::next\<close> (TreeOfLosers.h is not among the
  sources). It returns the smallest current stream, or null when all streams are
  exhausted, and it returns null while a stream is blocked. The streams live in the
  operator's vector and the tournament answers with an index into it. \<open>argMin\<close> plays
  the matches: among equal rows the stream met first wins, a later stream replaces the
  best one only when it is strictly less.
\<close>

definition argMin :: "(nat \<Rightarrow> nat \<Rightarrow> bool) \<Rightarrow> nat list \<Rightarrow> nat option" where
  "argMin lt cands =
     (case cands of
        [] \<Rightarrow> None
      | c # cs \<Rightarrow> Some (fold (\<lambda>i best. if lt i best then i else best) cs c))"

definition treeNext :: "source_stream list \<Rightarrow> nat option" where
  "treeNext ss =
     (if \<exists>s \<in> set ss. needData s then None
      else argMin (\<lambda>i best. streamLess (ss ! i) (ss ! best))
             (filter (\<lambda>i. hasData (ss ! i)) [0..<length ss]))"

section \<open>The merge operator\<close>

record driver_ctx =
  driverId :: nat
  outputBatchRows :: nat
  maxMergeExchangeBufferSize :: "64 word"

datatype connector_split = RemoteConnectorSplit string | OtherConnectorSplit

datatype split_event = SplitNotReady continue_future | SplitReady "connector_split option"

record task_state =
  localMergeSources :: "merge_source list"
  splitQueue :: "split_event list"
  remoteEvents :: "string \<Rightarrow> source_event list"
  destination :: nat
  splitsFinished :: nat

record merge_state =
  driverCtx :: driver_ctx
  task :: task_state
  outputType :: nat
  outputBatchSize :: nat
  sortingKeys :: "sort_key list"
  sources :: "merge_source list"
  numStartedSources :: nat
  streams :: "source_stream list"
  treeOfLosers :: bool
  outputBatch :: "row_vector option"
  outputSize :: nat
  sourceBlockingFutures :: "continue_future list"
  finished :: bool

text \<open>
  The constructor \<open>Merge::Merge\<close>, Merge.cpp lines 38 to 69. \<open>exprToChannel\<close> is not
  among the sources; its result for every sorting key is the input here.
\<close>

datatype channel = kConstantChannel | Channel nat

record sort_order =
  isNullsFirst :: bool
  isAscending :: bool

fun makeSortingKeys :: "channel list \<Rightarrow> sort_order list \<Rightarrow> error + sort_key list" where
  "makeSortingKeys [] orders = Inr []"
| "makeSortingKeys (c # cs) [] = Inl IndexOutOfRange"
| "makeSortingKeys (kConstantChannel # cs) (ord # orders) =
     Inl (VeloxCheckFailed ''Merge doesn't allow constant grouping keys'')"
| "makeSortingKeys (Channel n # cs) (ord # orders) =
     (case makeSortingKeys cs orders of
        Inl e \<Rightarrow> Inl e
      | Inr keys \<Rightarrow>
          Inr ((n, \<lparr>nullsFirst = isNullsFirst ord, ascending = isAscending ord,
                    equalsOnly = False\<rparr>) # keys))"

definition newMerge ::
  "driver_ctx \<Rightarrow> task_state \<Rightarrow> nat \<Rightarrow> channel list \<Rightarrow> sort_order list \<Rightarrow> error + merge_state" where
  "newMerge ctx tsk ncols sortingChannels sortingOrders =
     (case makeSortingKeys sortingChannels sortingOrders of
        Inl e \<Rightarrow> Inl e
      | Inr keys \<Rightarrow>
          Inr \<lparr>driverCtx = ctx, task = tsk, outputType = ncols,
               outputBatchSize = outputBatchRows ctx, sortingKeys = keys,
               sources = [], numStartedSources = 0, streams = [], treeOfLosers = False,
               outputBatch = None, outputSize = 0, sourceBlockingFutures = [],
               finished = False\<rparr>)"

text \<open>\<open>Merge::initializeTreeOfLosers\<close>, lines 71 to 87: one cursor for every source.\<close>

definition initializeTreeOfLosers :: "'a merge_state_scheme \<Rightarrow> 'a merge_state_scheme" where
  "initializeTreeOfLosers st =
     st\<lparr>streams := streams st @
           map (\<lambda>source. newSourceStream (sortingKeys st) (outputBatchSize st)) (sources st),
        treeOfLosers := True\<rparr>"

text \<open>\<open>Merge::startSources\<close>, lines 126 to 141.\<close>

definition startSources :: "'a merge_state_scheme \<Rightarrow> error + 'a merge_state_scheme" where
  "startSources st =
     (if \<not> numStartedSources st \<le> length (sources st)
      then Inl (VeloxCheckFailed ''numStartedSources_ <= sources_.size()'')
      else if numStartedSources st \<ge> length (sources st) then Inr st
      else if numStartedSources st \<noteq> 0
      then Inl (VeloxCheckFailed ''numStartedSources_ == 0'')
      else if streams st \<noteq> [] then Inl (VeloxCheckFailed ''streams_.empty()'')
      else if sourceBlockingFutures st \<noteq> []
      then Inl (VeloxCheckFailed ''sourceBlockingFutures_.empty()'')
      else Inr (st\<lparr>sources := map sourceStart (sources st),
                   numStartedSources := length (sources st)\<rparr>))"

text \<open>
  The loop of \<open>Merge::isBlocked\<close> over the cursors (lines 112 to 114). The cursor at
  index \<open>i\<close> reads the source at index \<open>i\<close>, the one it was created for.
\<close>

fun pollStreams ::
  "source_stream list \<Rightarrow> merge_source list \<Rightarrow> continue_future list \<Rightarrow>
     source_stream list \<times> merge_source list \<times> continue_future list" where
  "pollStreams (s # ss) (src # srcs) futures =
     (case streamIsBlocked s src futures of
        (blocked, s', src', futures') \<Rightarrow>
          (case pollStreams ss srcs futures' of
             (ss', srcs', futures'') \<Rightarrow> (s' # ss', src' # srcs', futures'')))"
| "pollStreams ss srcs futures = (ss, srcs, futures)"

text \<open>
  \<open>Merge::isBlocked\<close>, lines 89 to 124. The subclass hook \<open>addMergeSources\<close> is a
  parameter. The future handed to the caller is returned beside the reason.
\<close>

definition isBlocked ::
  "('a merge_state_scheme \<Rightarrow> error + (blocking_reason \<times> continue_future \<times> 'a merge_state_scheme))
     \<Rightarrow> 'a merge_state_scheme
     \<Rightarrow> error + (blocking_reason \<times> continue_future \<times> 'a merge_state_scheme)" where
  "isBlocked addMergeSources st =
     (case addMergeSources st of
        Inl e \<Rightarrow> Inl e
      | Inr (reason, future, st1) \<Rightarrow>
          if reason \<noteq> kNotBlocked then Inr (reason, future, st1)
          else if sources st1 = [] then Inr (kNotBlocked, future, st1\<lparr>finished := True\<rparr>)
          else
            (case startSources st1 of
               Inl e \<Rightarrow> Inl e
             | Inr st2 \<Rightarrow>
                 (let st3 = (if streams st2 = [] \<and> length (sources st2) > 1
                             then initializeTreeOfLosers st2 else st2);
                      st4 = (if sourceBlockingFutures st3 = []
                             then (case pollStreams (streams st3) (sources st3)
                                          (sourceBlockingFutures st3) of
                                     (ss, srcs, futures) \<Rightarrow>
                                       st3\<lparr>streams := ss, sources := srcs,
                                           sourceBlockingFutures := futures\<rparr>)
                             else st3)
                  in if sourceBlockingFutures st4 = [] then Inr (kNotBlocked, future, st4)
                     else Inr (kWaitForProducer, last (sourceBlockingFutures st4),
                               st4\<lparr>sourceBlockingFutures :=
                                     butlast (sourceBlockingFutures st4)\<rparr>))))"

definition isFinished :: "'a merge_state_scheme \<Rightarrow> bool" where
  "isFinished st = finished st"

text \<open>The loop of \<open>Merge::getOutput\<close> that copies out all streams (lines 204 to 206).\<close>

fun copyAllToOutput ::
  "source_stream list \<Rightarrow> row_vector option \<Rightarrow> error + (source_stream list \<times> row_vector option)" where
  "copyAllToOutput [] out = Inr ([], out)"
| "copyAllToOutput (s # ss) out =
     (case copyToOutput s out of
        Inl e \<Rightarrow> Inl e
      | Inr (s', out') \<Rightarrow>
          (case copyAllToOutput ss out' of
             Inl e \<Rightarrow> Inl e
           | Inr (ss', out'') \<Rightarrow> Inr (s' # ss', out'')))"

text \<open>
  The \<open>for (;;)\<close> loop of \<open>Merge::getOutput\<close>, lines 176 to 215. \<open>mergeStep\<close> is one
  pass through the body: it either returns from \<open>getOutput\<close> (\<open>Done\<close>) or goes round
  again (\<open>Again\<close>). A slot at or beyond \<open>outputBatchSize_\<close> lies outside every selection
  bitmap; marking it is out of range.
\<close>

datatype 's loop_step = Done "row_vector option" 's | Again 's

definition mergeStep :: "'a merge_state_scheme \<Rightarrow> error + 'a merge_state_scheme loop_step" where
  "mergeStep st =
     (if \<not> treeOfLosers st then Inl NullPointer
      else
        (case treeNext (streams st) of
           None \<Rightarrow>
             (let st1 = st\<lparr>finished := True\<rparr>
              in if outputSize st1 = 0 then Inr (Done None st1)
                 else
                   (case outputBatch st1 of
                      None \<Rightarrow> Inl NullPointer
                    | Some ov \<Rightarrow>
                        Inr (Done (Some (resizeRowVector (outputSize st1) ov))
                               (st1\<lparr>outputBatch := None\<rparr>))))
         | Some w \<Rightarrow>
             if outputBatchSize st \<le> outputSize st then Inl IndexOutOfRange
             else
               (case setOutputRow (streams st ! w) (outputSize st) of
                  Inl e \<Rightarrow> Inl e
                | Inr (atLast, s1) \<Rightarrow>
                    (case (if atLast then copyToOutput s1 (outputBatch st)
                           else Inr (s1, outputBatch st)) of
                       Inl e \<Rightarrow> Inl e
                     | Inr (s2, out2) \<Rightarrow>
                         (case pop s2 (sources st ! w) (sourceBlockingFutures st) of
                            Inl e \<Rightarrow> Inl e
                          | Inr (blocked, s3, src3, futures3) \<Rightarrow>
                              (let st3 = st\<lparr>streams := (streams st)[w := s3],
                                            sources := (sources st)[w := src3],
                                            outputBatch := out2,
                                            outputSize := outputSize st + 1,
                                            sourceBlockingFutures := futures3\<rparr>
                               in if outputSize st3 = outputBatchSize st3 then
                                    (case copyAllToOutput (streams st3) (outputBatch st3) of
                                       Inl e \<Rightarrow> Inl e
                                     | Inr (ss, out4) \<Rightarrow>
                                         Inr (Done out4
                                                (st3\<lparr>streams := ss, outputBatch := None,
                                                     outputSize := 0\<rparr>)))
                                  else if sourceBlockingFutures st3 \<noteq> []
                                  then Inr (Done None st3)
                                  else Inr (Again st3)))))))"

function mergeLoop ::
  "'a merge_state_scheme \<Rightarrow> error + (row_vector option \<times> 'a merge_state_scheme)" where
  "mergeLoop st =
     (case mergeStep st of
        Inl e \<Rightarrow> Inl e
      | Inr (Done out st') \<Rightarrow> Inr (out, st')
      | Inr (Again st') \<Rightarrow> mergeLoop st')"
  by pat_completeness auto
termination
  by (relation "measure (\<lambda>st. outputBatchSize st - outputSize st)")
     (auto simp: mergeStep_def Let_def split: if_splits option.splits sum.splits prod.splits)

text \<open>The single-source shortcut of \<open>Merge::getOutput\<close>, lines 154 to 166.\<close>

definition getOutputSingle ::
  "'a merge_state_scheme \<Rightarrow> error + (row_vector option \<times> 'a merge_state_scheme)" where
  "getOutputSingle st =
     (case sourceNext (sources st ! 0) None of
        (reason, d, future, src') \<Rightarrow>
          (let st1 = st\<lparr>sources := (sources st)[0 := src']\<rparr>
           in if reason \<noteq> kNotBlocked
              then Inr (None, st1\<lparr>sourceBlockingFutures :=
                                    sourceBlockingFutures st1 @ [future]\<rparr>)
              else Inr (d, st1\<lparr>finished := (d = None)\<rparr>)))"

text \<open>\<open>Merge::getOutput\<close>, lines 147 to 216.\<close>

definition getOutput ::
  "'a merge_state_scheme \<Rightarrow> error + (row_vector option \<times> 'a merge_state_scheme)" where
  "getOutput st =
     (if finished st then Inr (None, st)
      else if numStartedSources st \<noteq> length (sources st)
      then Inl (VeloxCheckFailed ''numStartedSources_ == sources_.size()'')
      else if length (sources st) = 1 then getOutputSingle st
      else
        mergeLoop
          (if outputBatch st = None
           then st\<lparr>outputBatch := Some (createOutput (outputType st) (outputBatchSize st))\<rparr>
           else st))"

declare mergeLoop.simps [simp del]

section \<open>LocalMerge\<close>

text \<open>
  The constructor \<open>LocalMerge::LocalMerge\<close> (lines 304 to 320) and the hook
  \<open>LocalMerge::addMergeSources\<close> (lines 322 to 328). The task's answer to
  \<open>getLocalMergeSources\<close> is the field \<open>localMergeSources\<close> of the task.
\<close>

definition newLocalMerge ::
  "driver_ctx \<Rightarrow> task_state \<Rightarrow> nat \<Rightarrow> channel list \<Rightarrow> sort_order list \<Rightarrow> error + merge_state" where
  "newLocalMerge ctx tsk ncols sortingChannels sortingOrders =
     (case newMerge ctx tsk ncols sortingChannels sortingOrders of
        Inl e \<Rightarrow> Inl e
      | Inr st \<Rightarrow>
          if driverId (driverCtx st) \<noteq> 0
          then Inl (VeloxCheckFailed ''LocalMerge needs to run single-threaded'')
          else Inr st)"

definition localAddMergeSources ::
  "'a merge_state_scheme \<Rightarrow> error + (blocking_reason \<times> continue_future \<times> 'a merge_state_scheme)" where
  "localAddMergeSources st =
     Inr (kNotBlocked, EmptyFuture,
          (if sources st = [] then st\<lparr>sources := localMergeSources (task st)\<rparr> else st))"

section \<open>MergeExchange\<close>

record merge_exchange_state = merge_state +
  noMoreSplits :: bool
  remoteSourceTaskIds :: "string list"

definition newMergeExchange ::
  "driver_ctx \<Rightarrow> task_state \<Rightarrow> nat \<Rightarrow> channel list \<Rightarrow> sort_order list
     \<Rightarrow> error + merge_exchange_state" where
  "newMergeExchange ctx tsk ncols sortingChannels sortingOrders =
     (case newMerge ctx tsk ncols sortingChannels sortingOrders of
        Inl e \<Rightarrow> Inl e
      | Inr st \<Rightarrow>
          Inr (merge_state.extend st
                 (merge_exchange_state.fields False [])))"

text \<open>
  Modelled from the spec: \<open>Task::getSplitOrFuture\<close> and
  \<open>MergeSource::createMergeExchangeSource\<close> (not among the sources). The host delivers
  splits; a split is either an end marker (no connector split) or carries a remote task
  identifier. The created exchange source remembers the task id, the destination, its
  queued-bytes budget and its pool, and will deliver what the remote task produces.
\<close>

definition getSplitOrFuture ::
  "task_state \<Rightarrow> blocking_reason \<times> connector_split option \<times> continue_future \<times> task_state" where
  "getSplitOrFuture t =
     (case splitQueue t of
        [] \<Rightarrow> (kNotBlocked, None, EmptyFuture, t)
      | SplitNotReady f # q \<Rightarrow> (kWaitForSplit, None, f, t\<lparr>splitQueue := q\<rparr>)
      | SplitReady sp # q \<Rightarrow> (kNotBlocked, sp, EmptyFuture, t\<lparr>splitQueue := q\<rparr>))"

definition createMergeExchangeSource ::
  "task_state \<Rightarrow> string \<Rightarrow> nat \<Rightarrow> 64 word \<Rightarrow> nat \<Rightarrow> merge_source" where
  "createMergeExchangeSource t taskId dest maxQueuedBytes pool =
     \<lparr>kind = MergeExchangeSource taskId dest maxQueuedBytes pool,
      events = remoteEvents t taskId, started = False\<rparr>"

text \<open>
  The budget of lines 375 to 381. The division is the unsigned 64-bit division by
  \<open>remoteSourceTaskIds_.size()\<close>; \<open>std::max<int64_t>\<close> and \<open>std::min<int64_t>\<close> read
  their arguments as signed 64-bit integers. The two limits of \<open>MergeSource\<close> are not
  among the sources and are parameters.
\<close>

definition maxInt64 :: "64 word \<Rightarrow> 64 word \<Rightarrow> 64 word" where
  "maxInt64 a b = (if a <s b then b else a)"

definition minInt64 :: "64 word \<Rightarrow> 64 word \<Rightarrow> 64 word" where
  "minInt64 a b = (if b <s a then b else a)"

definition maxQueuedBytesPerSource :: "64 word \<Rightarrow> nat \<Rightarrow> 64 word \<Rightarrow> 64 word \<Rightarrow> 64 word" where
  "maxQueuedBytesPerSource maxBufferSize numSources lowerLimit upperLimit =
     minInt64 (maxInt64 (maxBufferSize div of_nat numSources) lowerLimit) upperLimit"

text \<open>
  \<open>MergeExchange::addMergeSources\<close>, lines 347 to 403; \<open>exchangeSplitLoop\<close> is its
  \<open>for (;;)\<close> loop.
\<close>

function exchangeSplitLoop ::
  "64 word \<Rightarrow> 64 word \<Rightarrow> merge_exchange_state
     \<Rightarrow> error + (blocking_reason \<times> continue_future \<times> merge_exchange_state)" where
  "exchangeSplitLoop lowerLimit upperLimit st =
     (case getSplitOrFuture (task st) of
        (reason, split, future, t') \<Rightarrow>
          if reason \<noteq> kNotBlocked then Inr (reason, future, st\<lparr>task := t'\<rparr>)
          else
            (case split of
               Some OtherConnectorSplit \<Rightarrow> Inl (VeloxCheckFailed ''Wrong type of split'')
             | Some (RemoteConnectorSplit taskId) \<Rightarrow>
                 exchangeSplitLoop lowerLimit upperLimit
                   (st\<lparr>task := t', remoteSourceTaskIds := remoteSourceTaskIds st @ [taskId]\<rparr>)
             | None \<Rightarrow>
                 (let st1 = st\<lparr>task := t', noMoreSplits := True\<rparr>;
                      ids = remoteSourceTaskIds st1;
                      st2 =
                        (if ids \<noteq> [] then
                           st1\<lparr>sources := sources st1 @
                             map (\<lambda>remoteSourceIndex.
                                    createMergeExchangeSource (task st1)
                                      (ids ! remoteSourceIndex) (destination (task st1))
                                      (maxQueuedBytesPerSource
                                         (maxMergeExchangeBufferSize (driverCtx st1))
                                         (length ids) lowerLimit upperLimit)
                                      remoteSourceIndex)
                               [0..<length ids]\<rparr>
                         else st1)
                  in Inr (kNotBlocked, future,
                          st2\<lparr>task := (task st2)\<lparr>splitsFinished :=
                                 splitsFinished (task st2) + length ids\<rparr>\<rparr>))))"
  by pat_completeness auto
termination
  by (relation "measure (\<lambda>(lo, hi, st). length (splitQueue (task st)))")
     (auto simp: getSplitOrFuture_def split: list.splits split_event.splits)

declare exchangeSplitLoop.simps [simp del]

definition exchangeAddMergeSources ::
  "64 word \<Rightarrow> 64 word \<Rightarrow> merge_exchange_state
     \<Rightarrow> error + (blocking_reason \<times> continue_future \<times> merge_exchange_state)" where
  "exchangeAddMergeSources lowerLimit upperLimit st =
     (if driverId (driverCtx st) \<noteq> 0 then Inr (kNotBlocked, EmptyFuture, st)
      else if noMoreSplits st then Inr (kNotBlocked, EmptyFuture, st)
      else exchangeSplitLoop lowerLimit upperLimit st)"

section \<open>The host\<close>

text \<open>
  Modelled from the spec: the driver that hosts the operator (Driver.cpp is not among the
  sources). One step asks \<open>isBlocked\<close>; on a blocking future it yields and comes back,
  otherwise it calls \<open>getOutput\<close>, hands a non-null batch downstream, and stops once the
  operator is finished. \<open>None\<close> is the driver still running when the fuel is used up.
\<close>

fun drive ::
  "('a merge_state_scheme \<Rightarrow> error + (blocking_reason \<times> continue_future \<times> 'a merge_state_scheme))
     \<Rightarrow> nat \<Rightarrow> 'a merge_state_scheme \<Rightarrow> row_vector list
     \<Rightarrow> (error + (row_vector list \<times> 'a merge_state_scheme)) option" where
  "drive hook 0 st acc = None"
| "drive hook (Suc n) st acc =
     (case isBlocked hook st of
        Inl e \<Rightarrow> Some (Inl e)
      | Inr (reason, future, st1) \<Rightarrow>
          if reason \<noteq> kNotBlocked then drive hook n st1 acc
          else
            (case getOutput st1 of
               Inl e \<Rightarrow> Some (Inl e)
             | Inr (out, st2) \<Rightarrow>
                 (let acc' = (case out of None \<Rightarrow> acc | Some b \<Rightarrow> acc @ [b])
                  in if isFinished st2 then Some (Inr (acc', st2))
                     else drive hook n st2 acc')))"

text \<open>
  Modelled from the spec: any sequence of the host's calls \<open>isBlocked\<close> and \<open>getOutput\<close>
  on the operator; the results of the \<open>getOutput\<close> calls are collected.
\<close>

datatype host_call = CallIsBlocked | CallGetOutput

fun callSequence ::
  "('a merge_state_scheme \<Rightarrow> error + (blocking_reason \<times> continue_future \<times> 'a merge_state_scheme))
     \<Rightarrow> host_call list \<Rightarrow> 'a merge_state_scheme
     \<Rightarrow> error + (row_vector option list \<times> 'a merge_state_scheme)" where
  "callSequence hook [] st = Inr ([], st)"
| "callSequence hook (CallIsBlocked # calls) st =
     (case isBlocked hook st of
        Inl e \<Rightarrow> Inl e
      | Inr (reason, future, st1) \<Rightarrow> callSequence hook calls st1)"
| "callSequence hook (CallGetOutput # calls) st =
     (case getOutput st of
        Inl e \<Rightarrow> Inl e
      | Inr (out, st1) \<Rightarrow>
          (case callSequence hook calls st1 of
             Inl e \<Rightarrow> Inl e
           | Inr (outs, st2) \<Rightarrow> Inr (out # outs, st2)))"

section \<open>Rows and their order under the sort keys\<close>

text \<open>
  The row-level reading of the stream comparison: \<open>rowLess\<close> runs the loop of
  \<open>operator<\<close> on two rows. \<open>rowStrictlyLess\<close> follows the words of the spec: the first
  key whose comparison is not zero decides, and it decides for "less" iff it is negative.
\<close>

fun rowLess :: "sort_key list \<Rightarrow> val list \<Rightarrow> val list \<Rightarrow> bool" where
  "rowLess [] ra rb = False"
| "rowLess (key # keys) ra rb =
     (let result = compareValues (snd key) (ra ! fst key) (rb ! fst key)
      in if result \<noteq> 0 then result < 0 else rowLess keys ra rb)"

definition keyCompare :: "sort_key list \<Rightarrow> val list \<Rightarrow> val list \<Rightarrow> nat \<Rightarrow> int" where
  "keyCompare keys ra rb i =
     compareValues (snd (keys ! i)) (ra ! fst (keys ! i)) (rb ! fst (keys ! i))"

definition rowStrictlyLess :: "sort_key list \<Rightarrow> val list \<Rightarrow> val list \<Rightarrow> bool" where
  "rowStrictlyLess keys ra rb =
     (\<exists>i \<in> set [0..<length keys].
        keyCompare keys ra rb i < 0 \<and> (\<forall>j \<in> set [0..<i]. keyCompare keys ra rb j = 0))"

definition rowsEqualOnKeys :: "sort_key list \<Rightarrow> val list \<Rightarrow> val list \<Rightarrow> bool" where
  "rowsEqualOnKeys keys ra rb = (\<forall>i \<in> set [0..<length keys]. keyCompare keys ra rb i = 0)"

definition currentRowLoaded :: "source_stream \<Rightarrow> bool" where
  "currentRowLoaded s =
     (case data s of
        None \<Rightarrow> False
      | Some d \<Rightarrow>
          currentSourceRow s < vsize d \<and>
          keyColumns s = map (\<lambda>key. children d ! fst key) (streamKeys s) \<and>
          (\<forall>key \<in> set (streamKeys s). fst key < length (children d)))"

definition currentRow :: "source_stream \<Rightarrow> val list" where
  "currentRow s = rowAt (the (data s)) (currentSourceRow s)"


section \<open>Example data\<close>



definition ascNullsFirst :: compare_flags where
  "ascNullsFirst = \<lparr>nullsFirst = True, ascending = True, equalsOnly = False\<rparr>"

definition exampleStreamA :: source_stream where
  "exampleStreamA =
     \<lparr>streamKeys = [(0, ascNullsFirst)], needData = False, atEnd = False,
      data = Some \<lparr>vsize = 2, children = [[Some 1, Some 2], [Some 7, Some 8]]\<rparr>,
      currentSourceRow = 0, firstSourceRow = 0,
      outputRows = [False, False], sourceRows = [0, 0],
      keyColumns = [[Some 1, Some 2]]\<rparr>"

definition exampleStreamB :: source_stream where
  "exampleStreamB =
     \<lparr>streamKeys = [(0, ascNullsFirst)], needData = False, atEnd = False,
      data = Some \<lparr>vsize = 2, children = [[Some 1, Some 3], [Some 9, Some 9]]\<rparr>,
      currentSourceRow = 0, firstSourceRow = 0,
      outputRows = [False, False], sourceRows = [0, 0],
      keyColumns = [[Some 1, Some 3]]\<rparr>"


text \<open>The kinds of the exchange sources that \<open>MergeExchange::addMergeSources\<close> creates.\<close>


definition exchangeSourceKinds ::
  "64 word \<Rightarrow> 64 word \<Rightarrow> merge_exchange_state \<Rightarrow> string list \<Rightarrow> source_kind list" where
  "exchangeSourceKinds lo hi st ids =
     map (\<lambda>i. MergeExchangeSource (ids ! i) (destination (task st))
                 (maxQueuedBytesPerSource (maxMergeExchangeBufferSize (driverCtx st))
                    (length ids) lo hi) i)
       [0..<length ids]"

definition exampleCtx :: driver_ctx where
  "exampleCtx = \<lparr>driverId = 0, outputBatchRows = 4, maxMergeExchangeBufferSize = 134217728\<rparr>"

definition exampleTask :: task_state where
  "exampleTask =
     \<lparr>localMergeSources = [],
      splitQueue = [SplitReady (Some (RemoteConnectorSplit ''t1'')),
                    SplitReady (Some (RemoteConnectorSplit ''t2''))],
      remoteEvents = (\<lambda>taskId. []), destination = 0, splitsFinished = 0\<rparr>"

definition exampleMerge :: merge_state where
  "exampleMerge =
     \<lparr>driverCtx = exampleCtx, task = exampleTask, outputType = 1, outputBatchSize = 4,
      sortingKeys = [(0, ascNullsFirst)], sources = [], numStartedSources = 0, streams = [],
      treeOfLosers = False, outputBatch = None, outputSize = 0, sourceBlockingFutures = [],
      finished = False\<rparr>"

definition exampleExchange :: merge_exchange_state where
  "exampleExchange =
     \<lparr>driverCtx = exampleCtx, task = exampleTask, outputType = 1, outputBatchSize = 4,
      sortingKeys = [(0, ascNullsFirst)], sources = [], numStartedSources = 0, streams = [],
      treeOfLosers = False, outputBatch = None, outputSize = 0, sourceBlockingFutures = [],
      finished = False, noMoreSplits = False, remoteSourceTaskIds = []\<rparr>"

definition exampleSource :: "source_event list \<Rightarrow> merge_source" where
  "exampleSource es = \<lparr>kind = LocalMergeSource, events = es, started = False\<rparr>"

definition exampleStreamLast :: source_stream where
  "exampleStreamLast = exampleStreamA\<lparr>currentSourceRow := 1\<rparr>"

definition exampleStreamPending :: source_stream where
  "exampleStreamPending = exampleStreamA\<lparr>currentSourceRow := 1, outputRows := [True, False]\<rparr>"

section \<open>The merge of the inputs\<close>

text \<open>
  The merge of the inputs, in the words of the spec: the rows of the streams are taken one
  at a time, always from a stream whose first remaining row is least under the sort keys.
  \<open>rowLe\<close> is the non-strict order that the output is sorted by.
\<close>

definition pickMin :: "sort_key list \<Rightarrow> val list list list \<Rightarrow> nat option" where
  "pickMin keys xss =
     argMin (\<lambda>i best. rowLess keys (hd (xss ! i)) (hd (xss ! best)))
       (filter (\<lambda>i. xss ! i \<noteq> []) [0..<length xss])"

function mergeRows :: "sort_key list \<Rightarrow> val list list list \<Rightarrow> val list list" where
  "mergeRows keys xss =
     (case pickMin keys xss of
        None \<Rightarrow> []
      | Some i \<Rightarrow> hd (xss ! i) # mergeRows keys (xss[i := tl (xss ! i)]))"
  by pat_completeness auto

definition rowLe :: "sort_key list \<Rightarrow> val list \<Rightarrow> val list \<Rightarrow> bool" where
  "rowLe keys ra rb = (\<not> rowLess keys rb ra)"

section \<open>What the operator still owes: the invariant of the merge\<close>

text \<open>
  A batch of the operator's row type has \<open>ncols\<close> children of its own length and at least
  one row (the host never hands an empty batch to an operator). The rows a source will
  still deliver are \<open>pendingRows\<close>; the rows a cursor still holds are \<open>streamRows\<close>.
\<close>

definition wfBatch :: "nat \<Rightarrow> row_vector \<Rightarrow> bool" where
  "wfBatch ncols d =
     (0 < vsize d \<and> length (children d) = ncols \<and> (\<forall>c \<in> set (children d). length c = vsize d))"

definition eventRows :: "source_event \<Rightarrow> val list list" where
  "eventRows e = (case e of NotReady f \<Rightarrow> [] | Batch d \<Rightarrow> rowsOf d)"

definition pendingRows :: "merge_source \<Rightarrow> val list list" where
  "pendingRows src = concat (map eventRows (events src))"

definition wfEvent :: "nat \<Rightarrow> source_event \<Rightarrow> bool" where
  "wfEvent ncols e = (case e of NotReady f \<Rightarrow> True | Batch d \<Rightarrow> wfBatch ncols d)"

definition wfSource :: "nat \<Rightarrow> merge_source \<Rightarrow> bool" where
  "wfSource ncols src = (\<forall>e \<in> set (events src). wfEvent ncols e)"

definition streamRows :: "source_stream \<Rightarrow> val list list" where
  "streamRows s =
     (case data s of None \<Rightarrow> [] | Some d \<Rightarrow> drop (currentSourceRow s) (rowsOf d))"

definition remainingRows :: "source_stream \<Rightarrow> merge_source \<Rightarrow> val list list" where
  "remainingRows s src = streamRows s @ pendingRows src"

text \<open>
  The state of one cursor and its source between two steps of the operator. A cursor at
  end or waiting for data has no selected row pending; a cursor in the tournament stands
  on a row of its batch, and its pending selected rows are the rows from
  \<open>firstSourceRow\<close> up to the current one.
\<close>

definition cursorOk ::
  "nat \<Rightarrow> nat \<Rightarrow> sort_key list \<Rightarrow> nat \<Rightarrow> source_stream \<Rightarrow> merge_source \<Rightarrow> bool" where
  "cursorOk B ncols keys outSize s src =
     (length (outputRows s) = B \<and> length (sourceRows s) = B \<and> streamKeys s = keys \<and>
      (\<forall>k \<in> set (selectedRows (outputRows s)). k < outSize) \<and>
      wfSource ncols src \<and>
      (case data s of None \<Rightarrow> True | Some d \<Rightarrow> wfBatch ncols d) \<and>
      (if atEnd s then
         events src = [] \<and> data s = None \<and> \<not> needData s \<and> selectedRows (outputRows s) = []
       else if needData s then
         selectedRows (outputRows s) = [] \<and> firstSourceRow s = 0 \<and>
         (case data s of None \<Rightarrow> True | Some d \<Rightarrow> currentSourceRow s = vsize d)
       else
         (case data s of
            None \<Rightarrow> False
          | Some d \<Rightarrow>
              currentSourceRow s < vsize d \<and>
              firstSourceRow s + length (selectedRows (outputRows s)) = currentSourceRow s \<and>
              keyColumns s = map (\<lambda>key. children d ! fst key) keys)))"

text \<open>
  \<open>L\<close> is the output batch under construction as a list of rows: a slot selected by a
  cursor holds the row of that cursor's batch it stands for (\<open>pendingOk\<close>), and a slot
  selected by no cursor has been copied into the batch already (\<open>copiedOk\<close>).
\<close>

definition pendingOk :: "val list list \<Rightarrow> source_stream \<Rightarrow> bool" where
  "pendingOk L s =
     (\<forall>j < length (selectedRows (outputRows s)).
        L ! (selectedRows (outputRows s) ! j) = rowAt (the (data s)) (firstSourceRow s + j))"

definition copiedOk ::
  "val list list \<Rightarrow> nat \<Rightarrow> source_stream list \<Rightarrow> row_vector option \<Rightarrow> bool" where
  "copiedOk L outSize ss out =
     (\<forall>k < outSize. (\<forall>s \<in> set ss. k \<notin> set (selectedRows (outputRows s))) \<longrightarrow>
        (case out of None \<Rightarrow> False | Some ov \<Rightarrow> rowAt ov k = L ! k))"

definition outputOk :: "nat \<Rightarrow> nat \<Rightarrow> nat \<Rightarrow> row_vector option \<Rightarrow> bool" where
  "outputOk B ncols outSize out =
     (case out of
        None \<Rightarrow> outSize = 0
      | Some ov \<Rightarrow>
          vsize ov = B \<and> length (children ov) = ncols \<and> (\<forall>c \<in> set (children ov). length c = B))"

definition remainders :: "'a merge_state_scheme \<Rightarrow> val list list list" where
  "remainders st = map2 remainingRows (streams st) (sources st)"

definition mergeInv :: "nat \<Rightarrow> 'a merge_state_scheme \<Rightarrow> val list list \<Rightarrow> bool" where
  "mergeInv lo st L =
     (treeOfLosers st \<and> \<not> finished st \<and>
      numStartedSources st = length (sources st) \<and> lo \<le> length (sources st) \<and>
      outputSize st < outputBatchSize st \<and> length L = outputSize st \<and>
      (\<forall>key \<in> set (sortingKeys st). fst key < outputType st) \<and>
      list_all2 (cursorOk (outputBatchSize st) (outputType st) (sortingKeys st) (outputSize st))
        (streams st) (sources st) \<and>
      (\<forall>s \<in> set (streams st). pendingOk L s) \<and>
      copiedOk L (outputSize st) (streams st) (outputBatch st) \<and>
      outputOk (outputBatchSize st) (outputType st) (outputSize st) (outputBatch st))"

definition loopInv :: "nat \<Rightarrow> 'a merge_state_scheme \<Rightarrow> val list list \<Rightarrow> bool" where
  "loopInv lo st L =
     (mergeInv lo st L \<and> sourceBlockingFutures st = [] \<and> outputBatch st \<noteq> None \<and>
      (\<forall>s \<in> set (streams st). \<not> needData s))"

text \<open>
  The measure of the work left: every row still owed, every future still to be handed to
  the host, and twice every time a source will still answer "not ready".
\<close>

definition notReadyCount :: "merge_source \<Rightarrow> nat" where
  "notReadyCount src =
     length (filter (\<lambda>e. case e of NotReady f \<Rightarrow> True | Batch d \<Rightarrow> False) (events src))"

definition workLeft :: "'a merge_state_scheme \<Rightarrow> nat" where
  "workLeft st =
     2 * sum_list (map notReadyCount (sources st)) + length (sourceBlockingFutures st) +
     sum_list (map length (remainders st))"

text \<open>What one pass of the loop hands back: the state, the batch, the rows of a batch.\<close>

definition stepState :: "'s loop_step \<Rightarrow> 's" where
  "stepState r = (case r of Done out st \<Rightarrow> st | Again st \<Rightarrow> st)"

definition stepOut :: "'s loop_step \<Rightarrow> row_vector option" where
  "stepOut r = (case r of Done out st \<Rightarrow> out | Again st \<Rightarrow> None)"

definition outRows :: "row_vector option \<Rightarrow> val list list" where
  "outRows out = (case out of None \<Rightarrow> [] | Some b \<Rightarrow> rowsOf b)"

text \<open>
  The tail of \<open>Merge::isBlocked\<close> (lines 111 to 123), named for the proofs: poll the
  cursors when no future is cached, then report.
\<close>

definition pollAndReport ::
  "continue_future \<Rightarrow> 'a merge_state_scheme
     \<Rightarrow> blocking_reason \<times> continue_future \<times> 'a merge_state_scheme" where
  "pollAndReport future st3 =
     (let st4 = (if sourceBlockingFutures st3 = []
                 then (case pollStreams (streams st3) (sources st3)
                              (sourceBlockingFutures st3) of
                         (ss, srcs, futures) \<Rightarrow>
                           st3\<lparr>streams := ss, sources := srcs,
                               sourceBlockingFutures := futures\<rparr>)
                 else st3)
      in if sourceBlockingFutures st4 = [] then (kNotBlocked, future, st4)
         else (kWaitForProducer, last (sourceBlockingFutures st4),
               st4\<lparr>sourceBlockingFutures := butlast (sourceBlockingFutures st4)\<rparr>))"

text \<open>
  Three sorted sources of one batch each, merged into batches of four rows.
\<close>

definition intBatch :: "int list \<Rightarrow> row_vector" where
  "intBatch xs = \<lparr>vsize = length xs, children = [map Some xs]\<rparr>"

definition scenarioTask :: task_state where
  "scenarioTask =
     \<lparr>localMergeSources =
        [exampleSource [Batch (intBatch [1, 4, 7])],
         exampleSource [Batch (intBatch [2, 5, 8])],
         exampleSource [Batch (intBatch [3, 6, 9])]],
      splitQueue = [], remoteEvents = (\<lambda>taskId. []), destination = 0, splitsFinished = 0\<rparr>"

definition scenarioMerge :: merge_state where
  "scenarioMerge =
     \<lparr>driverCtx = exampleCtx, task = scenarioTask, outputType = 1, outputBatchSize = 4,
      sortingKeys = [(0, ascNullsFirst)], sources = [], numStartedSources = 0, streams = [],
      treeOfLosers = False, outputBatch = None, outputSize = 0, sourceBlockingFutures = [],
      finished = False\<rparr>"






section \<open>The general path and the driver over it\<close>

text \<open>
  The entry of \<open>Merge::getOutput\<close> into the merge loop (lines 168 to 174), named for the
  proofs: the output batch is created when there is none.
\<close>

definition withOutput :: "'a merge_state_scheme \<Rightarrow> 'a merge_state_scheme" where
  "withOutput st =
     (if outputBatch st = None
      then st\<lparr>outputBatch := Some (createOutput (outputType st) (outputBatchSize st))\<rparr>
      else st)"

text \<open>
  The operator with its sources attached and nothing started: no cursor, no tournament, no
  output batch, no cached future.
\<close>

definition notStarted :: "'a merge_state_scheme \<Rightarrow> bool" where
  "notStarted st =
     (streams st = [] \<and> numStartedSources st = 0 \<and> \<not> treeOfLosers st \<and>
      outputBatch st = None \<and> outputSize st = 0 \<and> sourceBlockingFutures st = [] \<and>
      \<not> finished st)"

text \<open>
  The driver of section "The host" over any pair of operator entry points; \<open>drive\<close> is
  \<open>driveWith\<close> on \<open>isBlocked\<close> and \<open>getOutput\<close>.
\<close>

fun driveWith ::
  "('s \<Rightarrow> error + (blocking_reason \<times> continue_future \<times> 's))
     \<Rightarrow> ('s \<Rightarrow> error + (row_vector option \<times> 's)) \<Rightarrow> ('s \<Rightarrow> bool)
     \<Rightarrow> nat \<Rightarrow> 's \<Rightarrow> row_vector list \<Rightarrow> (error + (row_vector list \<times> 's)) option" where
  "driveWith blocked produce ended 0 st acc = None"
| "driveWith blocked produce ended (Suc n) st acc =
     (case blocked st of
        Inl e \<Rightarrow> Some (Inl e)
      | Inr (reason, future, st1) \<Rightarrow>
          if reason \<noteq> kNotBlocked then driveWith blocked produce ended n st1 acc
          else
            (case produce st1 of
               Inl e \<Rightarrow> Some (Inl e)
             | Inr (out, st2) \<Rightarrow>
                 (let acc' = (case out of None \<Rightarrow> acc | Some b \<Rightarrow> acc @ [b])
                  in if ended st2 then Some (Inr (acc', st2))
                     else driveWith blocked produce ended n st2 acc')))"




text \<open>
  The operator after \<open>startSources\<close> and \<open>initializeTreeOfLosers\<close> have run on its
  attached sources, named for the proofs.
\<close>

definition startedMerge :: "'a merge_state_scheme \<Rightarrow> 'a merge_state_scheme" where
  "startedMerge st =
     initializeTreeOfLosers
       (st\<lparr>sources := map sourceStart (sources st), numStartedSources := length (sources st)\<rparr>)"

text \<open>
  A MergeExchange over two remote tasks: the splits name the tasks \<open>t1\<close> and \<open>t2\<close>,
  which deliver the batches [1, 3] and [2].
\<close>

definition remoteExchange :: merge_exchange_state where
  "remoteExchange =
     exampleExchange
       \<lparr>task := exampleTask
          \<lparr>remoteEvents :=
             (\<lambda>taskId. if taskId = ''t1'' then [Batch (intBatch [1, 3])]
                        else [Batch (intBatch [2])])\<rparr>\<rparr>"

text \<open>
  Two sorted sources, the first with an empty batch between its batches [1] and [5], the
  second with the batch [2].
\<close>

definition gapSourceA :: merge_source where
  "gapSourceA = exampleSource [Batch (intBatch [1]), Batch (intBatch []), Batch (intBatch [5])]"

definition gapSourceB :: merge_source where
  "gapSourceB = exampleSource [Batch (intBatch [2])]"

definition gapMerge :: merge_state where
  "gapMerge = scenarioMerge\<lparr>task := scenarioTask\<lparr>localMergeSources := [gapSourceA, gapSourceB]\<rparr>\<rparr>"


text \<open>
  A MergeExchange with one remote task and a buffer size of \<open>2^63\<close> bytes.
\<close>

definition wideBufferExchange :: merge_exchange_state where
  "wideBufferExchange =
     exampleExchange
       \<lparr>driverCtx := exampleCtx\<lparr>maxMergeExchangeBufferSize := 9223372036854775808\<rparr>,
        task := exampleTask\<lparr>splitQueue := [SplitReady (Some (RemoteConnectorSplit ''t1''))]\<rparr>\<rparr>"

section \<open>The output slots and the streams that mark them\<close>








section \<open>Properties\<close>


lemma getOutput_finished_id: "finished st \<Longrightarrow> getOutput st = Inr (None, st)"
  by (simp add: getOutput_def)

lemma startSources_finished: "startSources st = Inr st' \<Longrightarrow> finished st' = finished st"
  by (auto simp: startSources_def split: if_splits)

lemma isBlocked_keeps_finished:
  assumes hook: "\<And>s r f s'. hook s = Inr (r, f, s') \<Longrightarrow> finished s \<Longrightarrow> finished s'"
    and "isBlocked hook st = Inr (r, f, st')" and "finished st"
  shows "finished st'"
  using assms(2,3)
  by (auto simp: isBlocked_def Let_def initializeTreeOfLosers_def
      split: sum.splits prod.splits if_splits dest!: hook startSources_finished)

lemma local_hook_finished:
  "localAddMergeSources s = Inr (r, f, s') \<Longrightarrow> finished s \<Longrightarrow> finished s'"
  by (auto simp: localAddMergeSources_def split: if_splits)

lemma exchangeSplitLoop_finished:
  "exchangeSplitLoop lo hi s = Inr (r, f, s') \<Longrightarrow> finished s' = finished s"
proof (induction lo hi s rule: exchangeSplitLoop.induct)
  case (1 lo hi st)
  obtain reason split future t' where g: "getSplitOrFuture (task st) = (reason, split, future, t')"
    by (cases "getSplitOrFuture (task st)") auto
  show ?case
  proof (cases "reason = kNotBlocked")
    case False
    with g "1.prems" show ?thesis
      by (subst (asm) exchangeSplitLoop.simps) auto
  next
    case nb: True
    show ?thesis
    proof (cases split)
      case None
      with g nb "1.prems" show ?thesis
        by (subst (asm) exchangeSplitLoop.simps) (auto simp: Let_def split: if_splits)
    next
      case (Some cs)
      show ?thesis
      proof (cases cs)
        case OtherConnectorSplit
        with g nb Some "1.prems" show ?thesis
          by (subst (asm) exchangeSplitLoop.simps) auto
      next
        case (RemoteConnectorSplit taskId)
        with g nb Some "1.prems"
        have "exchangeSplitLoop lo hi
                (st\<lparr>task := t', remoteSourceTaskIds := remoteSourceTaskIds st @ [taskId]\<rparr>)
              = Inr (r, f, s')"
          by (subst (asm) exchangeSplitLoop.simps) auto
        from "1.IH"[OF g[symmetric] refl refl _ Some RemoteConnectorSplit this] nb
        show ?thesis by simp
      qed
    qed
  qed
qed

lemma callSequence_finished:
  assumes hook: "\<And>s r f s'. hook s = Inr (r, f, s') \<Longrightarrow> finished s \<Longrightarrow> finished s'"
  shows "finished st \<Longrightarrow> callSequence hook calls st = Inr (outs, st') \<Longrightarrow>
     finished st' \<and> (\<forall>out \<in> set outs. out = None)"
proof (induction calls arbitrary: st outs)
  case Nil
  then show ?case by simp
next
  case (Cons c calls)
  show ?case
  proof (cases c)
    case CallIsBlocked
    with Cons.prems obtain r f st1 where b: "isBlocked hook st = Inr (r, f, st1)"
      and rest: "callSequence hook calls st1 = Inr (outs, st')"
      by (auto split: sum.splits)
    from isBlocked_keeps_finished[OF hook b Cons.prems(1)] have "finished st1" by simp
    from Cons.IH[OF this rest] show ?thesis .
  next
    case CallGetOutput
    with Cons.prems getOutput_finished_id[OF Cons.prems(1)]
    obtain outs1 where rest: "callSequence hook calls st = Inr (outs1, st')" and o: "outs = None # outs1"
      by (auto split: sum.splits)
    from Cons.IH[OF Cons.prems(1) rest] o show ?thesis by simp
  qed
qed




lemma lessFrom_rowLess:
  assumes "\<forall>j < length keys. keyColumns a ! (i + j) ! currentSourceRow a = ra ! fst (keys ! j)"
    and "\<forall>j < length keys. keyColumns b ! (i + j) ! currentSourceRow b = rb ! fst (keys ! j)"
  shows "lessFrom keys i a b = rowLess keys ra rb"
  using assms
proof (induction keys arbitrary: i)
  case Nil
  then show ?case by simp
next
  case (Cons key keys)
  from Cons.prems have h0: "keyColumns a ! i ! currentSourceRow a = ra ! fst key"
    "keyColumns b ! i ! currentSourceRow b = rb ! fst key"
    by force+
  have "\<forall>j<length keys. keyColumns a ! (Suc i + j) ! currentSourceRow a = ra ! fst (keys ! j)"
    "\<forall>j<length keys. keyColumns b ! (Suc i + j) ! currentSourceRow b = rb ! fst (keys ! j)"
    using Cons.prems by force+
  from Cons.IH[OF this] h0 show ?case
    by (simp add: compareColumn_def Let_def)
qed

lemma streamLess_rowLess:
  assumes "currentRowLoaded a" "currentRowLoaded b" "streamKeys b = streamKeys a"
  shows "streamLess a b = rowLess (streamKeys a) (currentRow a) (currentRow b)"
  unfolding streamLess_def
  apply (rule lessFrom_rowLess)
  using assms
   apply (auto simp: currentRowLoaded_def currentRow_def rowAt_def split: option.splits)
  done

lemma rowStrictlyLess_iff:
  "rowStrictlyLess keys ra rb =
     (\<exists>i < length keys. keyCompare keys ra rb i < 0 \<and> (\<forall>j < i. keyCompare keys ra rb j = 0))"
  by (auto simp: rowStrictlyLess_def)

lemma rowsEqualOnKeys_iff:
  "rowsEqualOnKeys keys ra rb = (\<forall>i < length keys. keyCompare keys ra rb i = 0)"
  by (auto simp: rowsEqualOnKeys_def)

lemma rowLess_iff_first_nonzero:
  "rowLess keys ra rb = rowStrictlyLess keys ra rb"
proof (induction keys)
  case Nil
  then show ?case by (simp add: rowStrictlyLess_iff)
next
  case (Cons key keys)
  let ?c = "compareValues (snd key) (ra ! fst key) (rb ! fst key)"
  have k0: "keyCompare (key # keys) ra rb 0 = ?c" by (simp add: keyCompare_def)
  have kS: "\<And>i. keyCompare (key # keys) ra rb (Suc i) = keyCompare keys ra rb i"
    by (simp add: keyCompare_def)
  show ?case
  proof (cases "?c = 0")
    case True
    have "rowStrictlyLess (key # keys) ra rb = rowStrictlyLess keys ra rb"
    proof
      assume "rowStrictlyLess (key # keys) ra rb"
      then obtain i where i: "i < length (key # keys)" "keyCompare (key # keys) ra rb i < 0"
        "\<forall>j<i. keyCompare (key # keys) ra rb j = 0" by (auto simp: rowStrictlyLess_iff)
      with True k0 obtain i' where i': "i = Suc i'" by (cases i) auto
      have "\<forall>j<i'. keyCompare keys ra rb j = 0"
      proof (intro allI impI)
        fix j assume "j < i'"
        then have "Suc j < i" using i' by simp
        with i(3) have "keyCompare (key # keys) ra rb (Suc j) = 0" by blast
        then show "keyCompare keys ra rb j = 0" by (simp add: kS)
      qed
      with i i' kS show "rowStrictlyLess keys ra rb"
        by (auto simp: rowStrictlyLess_iff)
    next
      assume "rowStrictlyLess keys ra rb"
      then obtain i where i: "i < length keys" "keyCompare keys ra rb i < 0"
        "\<forall>j<i. keyCompare keys ra rb j = 0" by (auto simp: rowStrictlyLess_iff)
      have "\<forall>j<Suc i. keyCompare (key # keys) ra rb j = 0"
      proof (intro allI impI)
        fix j assume "j < Suc i"
        then show "keyCompare (key # keys) ra rb j = 0"
          using i(3) True k0 kS by (cases j) auto
      qed
      with i kS show "rowStrictlyLess (key # keys) ra rb"
        unfolding rowStrictlyLess_iff
        by (intro exI[of _ "Suc i"]) simp
    qed
    with True Cons.IH show ?thesis by (simp add: Let_def)
  next
    case False
    have "rowStrictlyLess (key # keys) ra rb = (?c < 0)"
    proof
      assume "rowStrictlyLess (key # keys) ra rb"
      then obtain i where i: "i < length (key # keys)" "keyCompare (key # keys) ra rb i < 0"
        "\<forall>j<i. keyCompare (key # keys) ra rb j = 0" by (auto simp: rowStrictlyLess_iff)
      have "i = 0"
      proof (rule ccontr)
        assume "i \<noteq> 0"
        then have "0 < i" by simp
        with i(3) have "keyCompare (key # keys) ra rb 0 = 0" by blast
        with False k0 show False by simp
      qed
      with i k0 show "?c < 0" by simp
    next
      assume "?c < 0"
      then show "rowStrictlyLess (key # keys) ra rb"
        unfolding rowStrictlyLess_iff using k0 by (intro exI[of _ 0]) simp
    qed
    with False show ?thesis by (simp add: Let_def)
  qed
qed

lemma compareValues_zero_sym: "compareValues f x y = 0 \<Longrightarrow> compareValues f y x = 0"
  by (auto simp: compareValues_def Let_def split: option.splits if_splits)

lemma rowsEqualOnKeys_sym: "rowsEqualOnKeys keys ra rb \<Longrightarrow> rowsEqualOnKeys keys rb ra"
  by (auto simp: rowsEqualOnKeys_iff keyCompare_def dest: compareValues_zero_sym)

lemma rowsEqualOnKeys_not_less: "rowsEqualOnKeys keys ra rb \<Longrightarrow> \<not> rowStrictlyLess keys ra rb"
  by (auto simp: rowsEqualOnKeys_iff rowStrictlyLess_iff)

subsection \<open>The stream comparison\<close>

text \<open>
  Claim C2. For two streams whose current rows are loaded (and that share the operator's
  sort key list), \<open>A < B\<close> is true iff the first key whose column comparison is not zero
  compares negative, reading the keys from left to right. When the two rows are equal on
  all keys, neither \<open>A < B\<close> nor \<open>B < A\<close> holds: the comparison takes no stream identity
  and breaks no tie.
\<close>

theorem stream_less_is_strict_row_order:
  assumes "currentRowLoaded a" and "currentRowLoaded b" and "streamKeys b = streamKeys a"
  shows "(streamLess a b \<longleftrightarrow> rowStrictlyLess (streamKeys a) (currentRow a) (currentRow b)) \<and>
         (rowsEqualOnKeys (streamKeys a) (currentRow a) (currentRow b) \<longrightarrow>
            \<not> streamLess a b \<and> \<not> streamLess b a)"
proof -
  have ab: "streamLess a b = rowStrictlyLess (streamKeys a) (currentRow a) (currentRow b)"
    using streamLess_rowLess[OF assms] rowLess_iff_first_nonzero by simp
  have ba: "streamLess b a = rowStrictlyLess (streamKeys a) (currentRow b) (currentRow a)"
    using streamLess_rowLess[OF assms(2,1)] assms(3) rowLess_iff_first_nonzero by simp
  show ?thesis
    using ab ba rowsEqualOnKeys_not_less rowsEqualOnKeys_sym by blast
qed

theorem stream_less_is_strict_row_order_witness:
  "currentRowLoaded exampleStreamA \<and> currentRowLoaded exampleStreamB \<and>
   streamKeys exampleStreamB = streamKeys exampleStreamA \<and>
   rowsEqualOnKeys (streamKeys exampleStreamA) (currentRow exampleStreamA) (currentRow exampleStreamB) \<and>
   currentRow exampleStreamA \<noteq> currentRow exampleStreamB \<and>
   (streamLess exampleStreamA exampleStreamB \<longleftrightarrow>
      rowStrictlyLess (streamKeys exampleStreamA) (currentRow exampleStreamA) (currentRow exampleStreamB)) \<and>
   \<not> streamLess exampleStreamA exampleStreamB \<and> \<not> streamLess exampleStreamB exampleStreamA"
proof -
  have a: "currentRowLoaded exampleStreamA"
    by (simp add: currentRowLoaded_def exampleStreamA_def)
  have b: "currentRowLoaded exampleStreamB"
    by (simp add: currentRowLoaded_def exampleStreamB_def)
  have k: "streamKeys exampleStreamB = streamKeys exampleStreamA"
    by (simp add: exampleStreamA_def exampleStreamB_def)
  have e: "rowsEqualOnKeys (streamKeys exampleStreamA) (currentRow exampleStreamA) (currentRow exampleStreamB)"
    by (simp add: rowsEqualOnKeys_def keyCompare_def compareValues_def currentRow_def rowAt_def
        exampleStreamA_def exampleStreamB_def)
  have n: "currentRow exampleStreamA \<noteq> currentRow exampleStreamB"
    by (simp add: currentRow_def rowAt_def exampleStreamA_def exampleStreamB_def)
  from stream_less_is_strict_row_order[OF a b k] a b k e n show ?thesis by blast
qed

text \<open>
  Claim C10. Once the operator is finished, \<open>getOutput\<close> returns null and the operator
  state it returns is the state it was given: no source is polled, no future recorded, no
  output batch allocated, and the finished flag stays set. This holds for every later
  call: \<open>isBlocked\<close> never clears the flag (for a hook that does not clear it), so in any
  sequence of host calls every \<open>getOutput\<close> returns null.
\<close>

theorem finished_getOutput_is_noop:
  assumes keeps: "\<And>s r f s'. hook s = Inr (r, f, s') \<Longrightarrow> finished s \<Longrightarrow> finished s'"
    and fin: "isFinished st"
  shows "getOutput st = Inr (None, st) \<and>
         callSequence hook (replicate n CallGetOutput) st = Inr (replicate n None, st) \<and>
         (\<forall>calls outs st'. callSequence hook calls st = Inr (outs, st') \<longrightarrow>
            isFinished st' \<and> (\<forall>out \<in> set outs. out = None))"
proof -
  from fin have f: "finished st" by (simp add: isFinished_def)
  have 1: "getOutput st = Inr (None, st)" by (rule getOutput_finished_id[OF f])
  have 2: "callSequence hook (replicate n CallGetOutput) st = Inr (replicate n None, st)"
    by (induction n) (simp_all add: 1)
  have 3: "\<forall>calls outs st'. callSequence hook calls st = Inr (outs, st') \<longrightarrow>
            isFinished st' \<and> (\<forall>out \<in> set outs. out = None)"
    using callSequence_finished[OF keeps f] by (simp add: isFinished_def)
  from 1 2 3 show ?thesis by blast
qed


subsection \<open>Empty source list, construction, and pop\<close>


lemma isBlocked_empty_sources:
  assumes "hook st = Inr (kNotBlocked, f, st1)" and "sources st1 = []"
  shows "isBlocked hook st = Inr (kNotBlocked, f, st1\<lparr>finished := True\<rparr>)"
  using assms by (simp add: isBlocked_def)

text \<open>
  Claim C8. If the source list is empty after the hook has installed the sources,
  \<open>isBlocked\<close> marks the operator finished and returns not-blocked; the driver ends at
  once with no output batch, and every later \<open>getOutput\<close> returns null.
\<close>

theorem empty_sources_finish_without_output:
  assumes keeps: "\<And>s r f s'. hook s = Inr (r, f, s') \<Longrightarrow> finished s \<Longrightarrow> finished s'"
    and hook: "hook st = Inr (kNotBlocked, f, st1)" and empty: "sources st1 = []"
  shows "isBlocked hook st = Inr (kNotBlocked, f, st1\<lparr>finished := True\<rparr>) \<and>
         isFinished (st1\<lparr>finished := True\<rparr>) \<and>
         drive hook (Suc n) st [] = Some (Inr ([], st1\<lparr>finished := True\<rparr>)) \<and>
         (\<forall>calls outs st2. callSequence hook calls (st1\<lparr>finished := True\<rparr>) = Inr (outs, st2) \<longrightarrow>
            isFinished st2 \<and> (\<forall>out \<in> set outs. out = None))"
proof -
  let ?st = "st1\<lparr>finished := True\<rparr>"
  have b: "isBlocked hook st = Inr (kNotBlocked, f, ?st)"
    using hook empty by (simp add: isBlocked_def)
  have g: "getOutput ?st = Inr (None, ?st)" by (simp add: getOutput_finished_id)
  have d: "drive hook (Suc n) st [] = Some (Inr ([], ?st))"
    by (simp add: b g isFinished_def)
  have c: "\<forall>calls outs st2. callSequence hook calls ?st = Inr (outs, st2) \<longrightarrow>
            isFinished st2 \<and> (\<forall>out \<in> set outs. out = None)"
    using callSequence_finished[OF keeps, where st = ?st] by (simp add: isFinished_def)
  from b d c show ?thesis by (simp add: isFinished_def)
qed

lemma makeSortingKeys_ok:
  "kConstantChannel \<notin> set cs \<Longrightarrow> length cs \<le> length ords \<Longrightarrow> \<exists>keys. makeSortingKeys cs ords = Inr keys"
proof (induction cs ords rule: makeSortingKeys.induct)
  case (4 n cs ord orders)
  then show ?case by (auto split: sum.splits)
qed auto

lemma newMerge_driverCtx: "newMerge ctx tsk n cs ords = Inr st \<Longrightarrow> driverCtx st = ctx"
  by (auto simp: newMerge_def split: sum.splits)

text \<open>
  Claim C9. The constructor of LocalMerge fails on every driver other than driver 0 (with
  the message of its own check when the sort keys are accepted), and succeeds on driver 0
  when the sort keys are accepted. MergeExchange is constructed on any driver; on a driver
  other than 0 its hook installs no source and returns not-blocked with the state
  unchanged.
\<close>

theorem local_merge_requires_driver_zero:
  "(driverId ctx \<noteq> 0 \<longrightarrow> (\<exists>e. newLocalMerge ctx tsk n cs ords = Inl e)) \<and>
   (driverId ctx \<noteq> 0 \<and> kConstantChannel \<notin> set cs \<and> length cs \<le> length ords \<longrightarrow>
      newLocalMerge ctx tsk n cs ords =
        Inl (VeloxCheckFailed ''LocalMerge needs to run single-threaded'')) \<and>
   (driverId ctx = 0 \<and> kConstantChannel \<notin> set cs \<and> length cs \<le> length ords \<longrightarrow>
      (\<exists>st. newLocalMerge ctx tsk n cs ords = Inr st \<and>
            newMerge ctx tsk n cs ords = Inr st)) \<and>
   (kConstantChannel \<notin> set cs \<and> length cs \<le> length ords \<longrightarrow>
      (\<exists>ex. newMergeExchange ctx tsk n cs ords = Inr ex)) \<and>
   (driverId (driverCtx ex) \<noteq> 0 \<longrightarrow>
      exchangeAddMergeSources lo hi ex = Inr (kNotBlocked, EmptyFuture, ex))"
proof -
  have 1: "driverId ctx \<noteq> 0 \<longrightarrow> (\<exists>e. newLocalMerge ctx tsk n cs ords = Inl e)"
    by (auto simp: newLocalMerge_def split: sum.splits dest: newMerge_driverCtx)
  have ok: "kConstantChannel \<notin> set cs \<and> length cs \<le> length ords \<longrightarrow>
      (\<exists>st. newMerge ctx tsk n cs ords = Inr st)"
    using makeSortingKeys_ok[of cs ords] by (auto simp: newMerge_def split: sum.splits)
  have 2: "driverId ctx \<noteq> 0 \<and> kConstantChannel \<notin> set cs \<and> length cs \<le> length ords \<longrightarrow>
      newLocalMerge ctx tsk n cs ords =
        Inl (VeloxCheckFailed ''LocalMerge needs to run single-threaded'')"
    using ok by (auto simp: newLocalMerge_def split: sum.splits dest: newMerge_driverCtx)
  have 3: "driverId ctx = 0 \<and> kConstantChannel \<notin> set cs \<and> length cs \<le> length ords \<longrightarrow>
      (\<exists>st. newLocalMerge ctx tsk n cs ords = Inr st \<and> newMerge ctx tsk n cs ords = Inr st)"
    using ok by (auto simp: newLocalMerge_def split: sum.splits dest: newMerge_driverCtx)
  have 4: "kConstantChannel \<notin> set cs \<and> length cs \<le> length ords \<longrightarrow>
      (\<exists>ex. newMergeExchange ctx tsk n cs ords = Inr ex)"
    using ok by (auto simp: newMergeExchange_def split: sum.splits)
  have 5: "driverId (driverCtx ex) \<noteq> 0 \<longrightarrow>
      exchangeAddMergeSources lo hi ex = Inr (kNotBlocked, EmptyFuture, ex)"
    by (simp add: exchangeAddMergeSources_def)
  from 1 2 3 4 5 show ?thesis by blast
qed

lemma fetchMoreData_blocked_iff:
  "fetchMoreData s src fs = (blocked, s', src', fs') \<Longrightarrow>
     (blocked \<longleftrightarrow> (\<exists>f es. events src = NotReady f # es)) \<and>
     (blocked \<longrightarrow> (\<exists>f es. events src = NotReady f # es \<and> fs' = fs @ [f]) \<and>
         currentSourceRow s' = currentSourceRow s \<and> needData s' \<and> data s' = data s) \<and>
     (\<not> blocked \<longrightarrow> fs' = fs \<and> currentSourceRow s' = 0 \<and> \<not> needData s')"
  by (auto simp: fetchMoreData_def sourceNext_def Let_def
      split: list.splits source_event.splits if_splits)

text \<open>
  Claim C4. \<open>pop\<close> advances the current row by one. When the advance does not reach the
  end of the batch it returns false and touches nothing else. When it reaches the end and
  no selected row is pending, it is \<open>fetchMoreData\<close> on the advanced stream: it returns
  true iff the source is not ready, and then the source's future is appended and the
  stream needs data. When it reaches the end with selected rows pending, the check fails.
  Hence a successful \<open>pop\<close> with rows pending leaves the batch and the selection as they
  were.
\<close>

theorem pop_contract:
  assumes d: "data s = Some d"
  shows
   "(Suc (currentSourceRow s) \<noteq> vsize d \<longrightarrow>
        pop s src fs = Inr (False, s\<lparr>currentSourceRow := Suc (currentSourceRow s)\<rparr>, src, fs)) \<and>
    (Suc (currentSourceRow s) = vsize d \<and> \<not> hasSelections (outputRows s) \<longrightarrow>
        pop s src fs =
          Inr (fetchMoreData (s\<lparr>currentSourceRow := Suc (currentSourceRow s)\<rparr>) src fs)) \<and>
    (Suc (currentSourceRow s) = vsize d \<and> hasSelections (outputRows s) \<longrightarrow>
        pop s src fs = Inl (VeloxCheckFailed ''!outputRows_.hasSelections()'')) \<and>
    (\<forall>blocked s' src' fs'. pop s src fs = Inr (blocked, s', src', fs') \<longrightarrow>
        (blocked \<longleftrightarrow>
           Suc (currentSourceRow s) = vsize d \<and> (\<exists>f es. events src = NotReady f # es)) \<and>
        (blocked \<longrightarrow>
           (\<exists>f es. events src = NotReady f # es \<and> fs' = fs @ [f]) \<and>
           currentSourceRow s' = Suc (currentSourceRow s) \<and> needData s') \<and>
        (\<not> blocked \<longrightarrow> fs' = fs) \<and>
        (Suc (currentSourceRow s) \<noteq> vsize d \<longrightarrow>
           currentSourceRow s' = Suc (currentSourceRow s) \<and> src' = src) \<and>
        (hasSelections (outputRows s) \<longrightarrow> data s' = data s \<and> outputRows s' = outputRows s))"
proof -
  let ?s1 = "s\<lparr>currentSourceRow := Suc (currentSourceRow s)\<rparr>"
  have 1: "Suc (currentSourceRow s) \<noteq> vsize d \<longrightarrow> pop s src fs = Inr (False, ?s1, src, fs)"
    using d by (simp add: pop_def Let_def)
  have 2: "Suc (currentSourceRow s) = vsize d \<and> \<not> hasSelections (outputRows s) \<longrightarrow>
        pop s src fs = Inr (fetchMoreData ?s1 src fs)"
    using d by (simp add: pop_def Let_def)
  have 3: "Suc (currentSourceRow s) = vsize d \<and> hasSelections (outputRows s) \<longrightarrow>
        pop s src fs = Inl (VeloxCheckFailed ''!outputRows_.hasSelections()'')"
    using d by (simp add: pop_def Let_def)
  have 4: "\<forall>blocked s' src' fs'. pop s src fs = Inr (blocked, s', src', fs') \<longrightarrow>
        (blocked \<longleftrightarrow>
           Suc (currentSourceRow s) = vsize d \<and> (\<exists>f es. events src = NotReady f # es)) \<and>
        (blocked \<longrightarrow>
           (\<exists>f es. events src = NotReady f # es \<and> fs' = fs @ [f]) \<and>
           currentSourceRow s' = Suc (currentSourceRow s) \<and> needData s') \<and>
        (\<not> blocked \<longrightarrow> fs' = fs) \<and>
        (Suc (currentSourceRow s) \<noteq> vsize d \<longrightarrow>
           currentSourceRow s' = Suc (currentSourceRow s) \<and> src' = src) \<and>
        (hasSelections (outputRows s) \<longrightarrow> data s' = data s \<and> outputRows s' = outputRows s)"
  proof (intro allI impI)
    fix blocked s' src' fs'
    assume p: "pop s src fs = Inr (blocked, s', src', fs')"
    show "(blocked \<longleftrightarrow>
           Suc (currentSourceRow s) = vsize d \<and> (\<exists>f es. events src = NotReady f # es)) \<and>
        (blocked \<longrightarrow>
           (\<exists>f es. events src = NotReady f # es \<and> fs' = fs @ [f]) \<and>
           currentSourceRow s' = Suc (currentSourceRow s) \<and> needData s') \<and>
        (\<not> blocked \<longrightarrow> fs' = fs) \<and>
        (Suc (currentSourceRow s) \<noteq> vsize d \<longrightarrow>
           currentSourceRow s' = Suc (currentSourceRow s) \<and> src' = src) \<and>
        (hasSelections (outputRows s) \<longrightarrow> data s' = data s \<and> outputRows s' = outputRows s)"
    proof (cases "Suc (currentSourceRow s) = vsize d")
      case False
      with 1 p show ?thesis by auto
    next
      case True
      with 3 p have ns: "\<not> hasSelections (outputRows s)" by auto
      with 2 True p have "fetchMoreData ?s1 src fs = (blocked, s', src', fs')" by simp
      from fetchMoreData_blocked_iff[OF this] True ns show ?thesis by auto
    qed
  qed
  from 1 2 3 4 show ?thesis by blast
qed


subsection \<open>The budget of the exchange sources\<close>

lemma getSplitOrFuture_destination:
  "getSplitOrFuture t = (r, sp, f, t') \<Longrightarrow> destination t' = destination t"
  by (auto simp: getSplitOrFuture_def split: list.splits split_event.splits)

lemma exchangeSplitLoop_done:
  "exchangeSplitLoop lo hi st = Inr (kNotBlocked, f, st') \<Longrightarrow>
     noMoreSplits st' \<and> driverCtx st' = driverCtx st \<and>
     map kind (sources st') =
       map kind (sources st) @
       (if remoteSourceTaskIds st' \<noteq> []
        then exchangeSourceKinds lo hi st (remoteSourceTaskIds st') else [])"
proof (induction lo hi st rule: exchangeSplitLoop.induct)
  case (1 lo hi st)
  obtain reason split future t' where g: "getSplitOrFuture (task st) = (reason, split, future, t')"
    by (cases "getSplitOrFuture (task st)") auto
  note dest = getSplitOrFuture_destination[OF g]
  show ?case
  proof (cases "reason = kNotBlocked")
    case False
    with g "1.prems" show ?thesis
      by (subst (asm) exchangeSplitLoop.simps) auto
  next
    case nb: True
    show ?thesis
    proof (cases split)
      case None
      with g nb "1.prems" dest show ?thesis
        by (subst (asm) exchangeSplitLoop.simps)
           (auto simp: Let_def exchangeSourceKinds_def createMergeExchangeSource_def comp_def
                split: if_splits)
    next
      case (Some cs)
      show ?thesis
      proof (cases cs)
        case OtherConnectorSplit
        with g nb Some "1.prems" show ?thesis
          by (subst (asm) exchangeSplitLoop.simps) auto
      next
        case (RemoteConnectorSplit taskId)
        let ?st1 = "st\<lparr>task := t', remoteSourceTaskIds := remoteSourceTaskIds st @ [taskId]\<rparr>"
        from g nb Some RemoteConnectorSplit "1.prems"
        have "exchangeSplitLoop lo hi ?st1 = Inr (kNotBlocked, f, st')"
          by (subst (asm) exchangeSplitLoop.simps) auto
        from "1.IH"[OF g[symmetric] refl refl _ Some RemoteConnectorSplit this] nb dest
        show ?thesis by (simp add: exchangeSourceKinds_def)
      qed
    qed
  qed
qed

lemma sint_minInt64: "sint (minInt64 a b) = min (sint a) (sint b)"
  by (auto simp: minInt64_def word_sless_alt min_def)

lemma sint_maxInt64: "sint (maxInt64 a b) = max (sint a) (sint b)"
  by (auto simp: maxInt64_def word_sless_alt max_def)

lemma sint_quotient:
  assumes "0 < n" and "n < 2 ^ 64" and "unat (m :: 64 word) div n < 2 ^ 63"
  shows "sint (m div of_nat n) = int (unat m div n)"
proof -
  have un: "unat (of_nat n :: 64 word) = n"
    using assms(2) by (simp add: unat_of_nat)
  have uq: "unat (m div of_nat n) = unat m div n"
    by (simp add: unat_div un)
  have lt: "uint (m div of_nat n) < 2 ^ 63"
    using assms(3) uq by (simp add: uint_nat)
  have ge: "- (2 ^ 63) \<le> uint (m div of_nat n)"
    by (rule order_trans[of _ 0]) simp_all
  have "sint (m div of_nat n) = uint (m div of_nat n)"
    unfolding sint_uint using lt ge
    by (simp add: signed_take_bit_int_eq_self)
  with uq show ?thesis by (simp add: uint_nat)
qed

text \<open>
  The budget while the quotient fits a signed 64-bit integer (it always does for two or
  more sources): when the hook of MergeExchange reaches the end of the splits with
  \<open>n \<ge> 1\<close> remote task ids, it appends one exchange source per task id, in order, and
  all of them carry the same budget, whose signed value is
  \<open>min (max (maxMergeExchangeBufferSize / n) lowerLimit) upperLimit\<close>.
\<close>

theorem exchange_budget_is_clamped_share:
  assumes run: "exchangeAddMergeSources lo hi st = Inr (kNotBlocked, f, st')"
    and drv: "driverId (driverCtx st) = 0" and more: "\<not> noMoreSplits st"
    and n: "n = length (remoteSourceTaskIds st')" and n1: "1 \<le> n" and n32: "n < 2 ^ 32"
    and fits: "unat (maxMergeExchangeBufferSize (driverCtx st)) div n < 2 ^ 63"
  shows "\<exists>budget.
           sint budget =
             min (max (int (unat (maxMergeExchangeBufferSize (driverCtx st)) div n)) (sint lo))
                 (sint hi) \<and>
           map kind (sources st') =
             map kind (sources st) @
             map (\<lambda>i. MergeExchangeSource (remoteSourceTaskIds st' ! i) (destination (task st))
                         budget i) [0..<n]"
proof -
  let ?m = "maxMergeExchangeBufferSize (driverCtx st)"
  let ?budget = "maxQueuedBytesPerSource ?m n lo hi"
  from run drv more have loop: "exchangeSplitLoop lo hi st = Inr (kNotBlocked, f, st')"
    by (simp add: exchangeAddMergeSources_def)
  from n n1 have ne: "remoteSourceTaskIds st' \<noteq> []" by auto
  from exchangeSplitLoop_done[OF loop] ne n
  have srcs: "map kind (sources st') =
      map kind (sources st) @
      map (\<lambda>i. MergeExchangeSource (remoteSourceTaskIds st' ! i) (destination (task st))
                         ?budget i) [0..<n]"
    by (simp add: exchangeSourceKinds_def)
  have n64: "n < 2 ^ 64" using n32 by (rule less_trans) simp
  have "sint ?budget = min (max (int (unat ?m div n)) (sint lo)) (sint hi)"
    using sint_quotient[of n ?m] n1 n64 fits
    by (simp add: maxQueuedBytesPerSource_def sint_minInt64 sint_maxInt64)
  with srcs show ?thesis by blast
qed

text \<open>
  Claim C6. The budget is \<open>min (max (maxMergeExchangeBufferSize / n) lowerLimit) upperLimit\<close>
  only while the unsigned quotient is below \<open>2^63\<close>: \<open>std::max<int64_t>\<close> reads the
  unsigned 64-bit quotient as a signed integer. With one remote task and a buffer size of
  \<open>2^63\<close> bytes the quotient is read as \<open>-2^63\<close>, and the source is created with the
  lower limit, where the clamp of the claim gives the upper limit.
\<close>

theorem exchange_budget_wraps_beyond_int64:
  "unat (maxMergeExchangeBufferSize (driverCtx wideBufferExchange)) = 2 ^ 63 \<and>
   (case exchangeAddMergeSources 1048576 33554432 wideBufferExchange of
      Inl e \<Rightarrow> []
    | Inr (reason, future, st') \<Rightarrow> map kind (sources st')) =
     [MergeExchangeSource ''t1'' 0 1048576 0] \<and>
   min (max ((2 ^ 63) div 1) 1048576) 33554432 = (33554432 :: int)"
proof -
  have a: "unat (maxMergeExchangeBufferSize (driverCtx wideBufferExchange)) = 2 ^ 63"
    by (simp add: wideBufferExchange_def exampleExchange_def exampleCtx_def)
  have b: "(case exchangeAddMergeSources 1048576 33554432 wideBufferExchange of
      Inl e \<Rightarrow> []
    | Inr (reason, future, st') \<Rightarrow> map kind (sources st')) =
     [MergeExchangeSource ''t1'' 0 1048576 0]"
    by code_simp
  have c: "min (max ((2 ^ 63) div 1) 1048576) 33554432 = (33554432 :: int)"
    by simp
  from a b c show ?thesis by blast
qed

subsection \<open>Concrete instances\<close>

theorem finished_getOutput_is_noop_witness:
  "isFinished (exampleMerge\<lparr>finished := True\<rparr>) \<and>
   getOutput (exampleMerge\<lparr>finished := True\<rparr>) = Inr (None, exampleMerge\<lparr>finished := True\<rparr>) \<and>
   callSequence localAddMergeSources (replicate 3 CallGetOutput) (exampleMerge\<lparr>finished := True\<rparr>)
     = Inr (replicate 3 None, exampleMerge\<lparr>finished := True\<rparr>) \<and>
   (\<exists>st'. callSequence localAddMergeSources [CallIsBlocked, CallGetOutput]
            (exampleMerge\<lparr>finished := True\<rparr>) = Inr ([None], st') \<and> isFinished st')"
proof -
  let ?st = "exampleMerge\<lparr>finished := True\<rparr>"
  have f: "isFinished ?st" by (simp add: isFinished_def)
  have t: "getOutput ?st = Inr (None, ?st) \<and>
   callSequence localAddMergeSources (replicate 3 CallGetOutput) ?st = Inr (replicate 3 None, ?st) \<and>
   (\<forall>calls outs st'.
      callSequence localAddMergeSources calls ?st = Inr (outs, st')
        \<longrightarrow> isFinished st' \<and> (\<forall>out \<in> set outs. out = None))"
  proof (rule finished_getOutput_is_noop)
    show "\<And>(s::merge_state) r f s'.
        localAddMergeSources s = Inr (r, f, s') \<Longrightarrow> finished s \<Longrightarrow> finished s'"
      by (rule local_hook_finished)
    show "isFinished ?st" by (rule f)
  qed
  have cs: "callSequence localAddMergeSources [CallIsBlocked, CallGetOutput] ?st =
      Inr ([None], ?st)"
    by (simp add: isBlocked_def localAddMergeSources_def exampleMerge_def exampleTask_def
        getOutput_def)
  with t f show ?thesis by blast
qed

theorem empty_sources_finish_without_output_witness:
  "localAddMergeSources exampleMerge = Inr (kNotBlocked, EmptyFuture, exampleMerge) \<and>
   sources exampleMerge = [] \<and>
   isBlocked localAddMergeSources exampleMerge =
     Inr (kNotBlocked, EmptyFuture, exampleMerge\<lparr>finished := True\<rparr>) \<and>
   isFinished (exampleMerge\<lparr>finished := True\<rparr>) \<and>
   drive localAddMergeSources (Suc 0) exampleMerge [] =
     Some (Inr ([], exampleMerge\<lparr>finished := True\<rparr>)) \<and>
   (\<exists>st2. callSequence localAddMergeSources [CallGetOutput, CallIsBlocked, CallGetOutput]
            (exampleMerge\<lparr>finished := True\<rparr>) = Inr ([None, None], st2) \<and> isFinished st2)"
proof -
  let ?st = "exampleMerge\<lparr>finished := True\<rparr>"
  have h: "localAddMergeSources exampleMerge = Inr (kNotBlocked, EmptyFuture, exampleMerge)"
    by (simp add: localAddMergeSources_def exampleMerge_def exampleTask_def)
  have e: "sources exampleMerge = []" by (simp add: exampleMerge_def)
  have t: "isBlocked localAddMergeSources exampleMerge = Inr (kNotBlocked, EmptyFuture, ?st) \<and>
   isFinished ?st \<and>
   drive localAddMergeSources (Suc 0) exampleMerge [] = Some (Inr ([], ?st)) \<and>
   (\<forall>calls outs st2.
      callSequence localAddMergeSources calls ?st = Inr (outs, st2)
        \<longrightarrow> isFinished st2 \<and> (\<forall>out \<in> set outs. out = None))"
  proof (rule empty_sources_finish_without_output)
    show "\<And>(s::merge_state) r f s'.
        localAddMergeSources s = Inr (r, f, s') \<Longrightarrow> finished s \<Longrightarrow> finished s'"
      by (rule local_hook_finished)
    show "localAddMergeSources exampleMerge = Inr (kNotBlocked, EmptyFuture, exampleMerge)"
      by (rule h)
    show "sources exampleMerge = []" by (rule e)
  qed
  have cs:
    "callSequence localAddMergeSources [CallGetOutput, CallIsBlocked, CallGetOutput] ?st =
      Inr ([None, None], ?st)"
    by (simp add: isBlocked_def localAddMergeSources_def exampleMerge_def exampleTask_def
        getOutput_def)
  with t h e show ?thesis by blast
qed

theorem local_merge_requires_driver_zero_witness:
  "driverId (exampleCtx\<lparr>driverId := 1\<rparr>) \<noteq> 0 \<and> driverId exampleCtx = 0 \<and>
   kConstantChannel \<notin> set [Channel 0] \<and>
   length [Channel 0] \<le> length [\<lparr>isNullsFirst = True, isAscending = True\<rparr>] \<and>
   newLocalMerge (exampleCtx\<lparr>driverId := 1\<rparr>) exampleTask 1 [Channel 0]
       [\<lparr>isNullsFirst = True, isAscending = True\<rparr>] =
     Inl (VeloxCheckFailed ''LocalMerge needs to run single-threaded'') \<and>
   (\<exists>st. newLocalMerge exampleCtx exampleTask 1 [Channel 0]
            [\<lparr>isNullsFirst = True, isAscending = True\<rparr>] = Inr st) \<and>
   (\<exists>ex. newMergeExchange (exampleCtx\<lparr>driverId := 1\<rparr>) exampleTask 1 [Channel 0]
            [\<lparr>isNullsFirst = True, isAscending = True\<rparr>] = Inr ex) \<and>
   driverId (driverCtx (exampleExchange\<lparr>driverCtx := exampleCtx\<lparr>driverId := 1\<rparr>\<rparr>)) \<noteq> 0 \<and>
   exchangeAddMergeSources 1048576 33554432
       (exampleExchange\<lparr>driverCtx := exampleCtx\<lparr>driverId := 1\<rparr>\<rparr>) =
     Inr (kNotBlocked, EmptyFuture, exampleExchange\<lparr>driverCtx := exampleCtx\<lparr>driverId := 1\<rparr>\<rparr>)"
proof -
  have a: "driverId (exampleCtx\<lparr>driverId := 1\<rparr>) \<noteq> 0" by simp
  have b: "driverId exampleCtx = 0" by (simp add: exampleCtx_def)
  have c: "kConstantChannel \<notin> set [Channel 0]" by simp
  have d: "length [Channel 0] \<le> length [\<lparr>isNullsFirst = True, isAscending = True\<rparr>]" by simp
  have e: "driverId (driverCtx (exampleExchange\<lparr>driverCtx := exampleCtx\<lparr>driverId := 1\<rparr>\<rparr>)) \<noteq> 0"
    by simp
  from local_merge_requires_driver_zero[of "exampleCtx\<lparr>driverId := 1\<rparr>" exampleTask 1
      "[Channel 0]" "[\<lparr>isNullsFirst = True, isAscending = True\<rparr>]"
      "exampleExchange\<lparr>driverCtx := exampleCtx\<lparr>driverId := 1\<rparr>\<rparr>" 1048576 33554432]
    local_merge_requires_driver_zero[of exampleCtx exampleTask 1
      "[Channel 0]" "[\<lparr>isNullsFirst = True, isAscending = True\<rparr>]"
      "exampleExchange\<lparr>driverCtx := exampleCtx\<lparr>driverId := 1\<rparr>\<rparr>" 1048576 33554432]
    a b c d e
  show ?thesis by blast
qed

theorem pop_contract_witness:
  "data exampleStreamA = Some \<lparr>vsize = 2, children = [[Some 1, Some 2], [Some 7, Some 8]]\<rparr> \<and>
   pop exampleStreamA (exampleSource []) [] =
     Inr (False, exampleStreamA\<lparr>currentSourceRow := Suc 0\<rparr>, exampleSource [], []) \<and>
   \<not> hasSelections (outputRows exampleStreamLast) \<and>
   (\<exists>s' src'. pop exampleStreamLast (exampleSource [NotReady (Future 7)]) [] =
        Inr (True, s', src', [Future 7]) \<and> needData s' \<and> currentSourceRow s' = 2) \<and>
   hasSelections (outputRows exampleStreamPending) \<and>
   pop exampleStreamPending (exampleSource []) [] =
     Inl (VeloxCheckFailed ''!outputRows_.hasSelections()'')"
proof -
  let ?d = "\<lparr>vsize = 2, children = [[Some 1, Some 2], [Some 7, Some (8::int)]]\<rparr>"
  have dA: "data exampleStreamA = Some ?d" by (simp add: exampleStreamA_def)
  have dL: "data exampleStreamLast = Some ?d"
    by (simp add: exampleStreamLast_def exampleStreamA_def)
  have dP: "data exampleStreamPending = Some ?d"
    by (simp add: exampleStreamPending_def exampleStreamA_def)
  have cA: "Suc (currentSourceRow exampleStreamA) \<noteq> vsize ?d" by (simp add: exampleStreamA_def)
  have cL: "Suc (currentSourceRow exampleStreamLast) = vsize ?d"
    by (simp add: exampleStreamLast_def)
  have cP: "Suc (currentSourceRow exampleStreamPending) = vsize ?d"
    by (simp add: exampleStreamPending_def)
  have nL: "\<not> hasSelections (outputRows exampleStreamLast)"
    by (simp add: exampleStreamLast_def exampleStreamA_def hasSelections_def selectedRows_def
        numeral_2_eq_2)
  have hP: "hasSelections (outputRows exampleStreamPending)"
    by (simp add: exampleStreamPending_def hasSelections_def selectedRows_def
        numeral_2_eq_2)
  have ev: "events (exampleSource [NotReady (Future 7)]) = [NotReady (Future 7)]"
    by (simp add: exampleSource_def)
  note A = pop_contract[OF dA, of "exampleSource []" "[]"]
  have 1: "pop exampleStreamA (exampleSource []) [] =
     Inr (False, exampleStreamA\<lparr>currentSourceRow := Suc 0\<rparr>, exampleSource [], [])"
    using A cA by (simp add: exampleStreamA_def)
  note L = pop_contract[OF dL, of "exampleSource [NotReady (Future 7)]" "[]"]
  obtain b s' src' fs' where
    fm: "fetchMoreData (exampleStreamLast\<lparr>currentSourceRow := Suc (currentSourceRow exampleStreamLast)\<rparr>)
           (exampleSource [NotReady (Future 7)]) [] = (b, s', src', fs')"
    using prod_cases4 by blast
  from L cL nL have "pop exampleStreamLast (exampleSource [NotReady (Future 7)]) [] =
      Inr (fetchMoreData
             (exampleStreamLast\<lparr>currentSourceRow := Suc (currentSourceRow exampleStreamLast)\<rparr>)
             (exampleSource [NotReady (Future 7)]) [])" by blast
  then have pL: "pop exampleStreamLast (exampleSource [NotReady (Future 7)]) [] =
      Inr (b, s', src', fs')" by (simp only: fm)
  from L pL cL ev have "b" and "fs' = [Future 7]" and "needData s'"
    and "currentSourceRow s' = Suc (currentSourceRow exampleStreamLast)"
    by auto
  with pL have 2: "\<exists>s' src'. pop exampleStreamLast (exampleSource [NotReady (Future 7)]) [] =
        Inr (True, s', src', [Future 7]) \<and> needData s' \<and> currentSourceRow s' = 2"
    by (auto simp: exampleStreamLast_def)
  note P = pop_contract[OF dP, of "exampleSource []" "[]"]
  from P cP hP have 3: "pop exampleStreamPending (exampleSource []) [] =
     Inl (VeloxCheckFailed ''!outputRows_.hasSelections()'')" by blast
  from dA 1 nL 2 hP 3 show ?thesis by blast
qed

theorem exchange_budget_is_clamped_share_witness:
  "driverId (driverCtx exampleExchange) = 0 \<and> \<not> noMoreSplits exampleExchange \<and>
   unat (maxMergeExchangeBufferSize (driverCtx exampleExchange)) div 2 < 2 ^ 63 \<and>
   (\<exists>f st'. exchangeAddMergeSources 1048576 33554432 exampleExchange = Inr (kNotBlocked, f, st') \<and>
      length (remoteSourceTaskIds st') = 2 \<and>
      (\<exists>budget. sint budget = 33554432 \<and>
         map kind (sources st') =
           [MergeExchangeSource ''t1'' 0 budget 0, MergeExchangeSource ''t2'' 0 budget 1]))"
proof -
  have d: "driverId (driverCtx exampleExchange) = 0"
    by (simp add: exampleExchange_def exampleCtx_def)
  have m: "\<not> noMoreSplits exampleExchange" by (simp add: exampleExchange_def)
  have mb: "unat (maxMergeExchangeBufferSize (driverCtx exampleExchange)) = 134217728"
    by (simp add: exampleExchange_def exampleCtx_def)
  have fits: "unat (maxMergeExchangeBufferSize (driverCtx exampleExchange)) div 2 < 2 ^ 63"
    by (simp add: mb)
  obtain f st' where run: "exchangeAddMergeSources 1048576 33554432 exampleExchange =
      Inr (kNotBlocked, f, st')" and ids: "remoteSourceTaskIds st' = [''t1'', ''t2'']"
    by (simp add: exchangeAddMergeSources_def exampleExchange_def exampleCtx_def
        exampleTask_def exchangeSplitLoop.simps getSplitOrFuture_def Let_def)
  have n: "2 = length (remoteSourceTaskIds st')" by (simp add: ids)
  from exchange_budget_is_clamped_share[OF run d m n _ _ fits]
  obtain budget where
    b: "sint budget =
          min (max (int (unat (maxMergeExchangeBufferSize (driverCtx exampleExchange)) div 2))
               (sint (1048576 :: 64 word))) (sint (33554432 :: 64 word))"
    and k: "map kind (sources st') =
             map kind (sources exampleExchange) @
             map (\<lambda>i. MergeExchangeSource (remoteSourceTaskIds st' ! i)
                         (destination (task exampleExchange)) budget i) [0..<2]"
    by auto
  from b mb have b': "sint budget = 33554432" by simp
  have "[0..<2] = [0, Suc 0]" by (simp add: numeral_2_eq_2)
  with k ids have k': "map kind (sources st') =
           [MergeExchangeSource ''t1'' 0 budget 0, MergeExchangeSource ''t2'' 0 budget 1]"
    by (simp add: exampleExchange_def exampleTask_def)
  from d m fits run ids b' k' show ?thesis by auto
qed

subsection \<open>The merge of row lists: rows, order\<close>

lemma fold_argmin_mem:
  "fold (\<lambda>i best. if lt i best then i else best) cs c \<in> set (c # cs)"
  by (induction cs arbitrary: c) auto

lemma argMin_Some_mem: "argMin lt cands = Some i \<Longrightarrow> i \<in> set cands"
  using fold_argmin_mem[of lt] by (auto simp: argMin_def split: list.splits)

lemma argMin_None_iff: "argMin lt cands = None \<longleftrightarrow> cands = []"
  by (auto simp: argMin_def split: list.splits)

lemma pickMin_Some: "pickMin keys xss = Some i \<Longrightarrow> i < length xss \<and> xss ! i \<noteq> []"
  by (auto simp: pickMin_def dest!: argMin_Some_mem)

lemma pickMin_None: "pickMin keys xss = None \<longleftrightarrow> (\<forall>xs \<in> set xss. xs = [])"
proof -
  have "pickMin keys xss = None \<longleftrightarrow> (\<forall>i < length xss. xss ! i = [])"
    by (auto simp: pickMin_def argMin_None_iff filter_empty_conv)
  also have "\<dots> \<longleftrightarrow> (\<forall>xs \<in> set xss. xs = [])"
    by (simp add: all_set_conv_all_nth)
  finally show ?thesis .
qed

lemma sum_length_tl:
  assumes "i < length xss" and "xss ! i \<noteq> []"
  shows "Suc (sum_list (map length (xss[i := tl (xss ! i)]))) = sum_list (map length xss)"
proof -
  have "sum_list (map length (xss[i := tl (xss ! i)])) =
        sum_list ((map length xss)[i := length (tl (xss ! i))])"
    by (simp add: map_update)
  also have "\<dots> = sum_list (map length xss) + length (tl (xss ! i)) - (map length xss) ! i"
    using assms(1) by (simp add: sum_list_update)
  also have "\<dots> = sum_list (map length xss) + (length (xss ! i) - 1) - length (xss ! i)"
    using assms(1) by simp
  finally have e: "sum_list (map length (xss[i := tl (xss ! i)])) =
      sum_list (map length xss) + (length (xss ! i) - 1) - length (xss ! i)" .
  have "length (xss ! i) \<le> sum_list (map length xss)"
  proof -
    have "length (xss ! i) \<in> set (map length xss)" using assms(1) by force
    then show ?thesis by (simp add: member_le_sum_list)
  qed
  moreover have "0 < length (xss ! i)" using assms(2) by simp
  ultimately show ?thesis unfolding e by linarith
qed

termination mergeRows
proof (relation "measure (\<lambda>(keys, xss). sum_list (map length xss))")
  show "wf (measure (\<lambda>(keys, xss). sum_list (map length xss)))" by simp
next
  fix keys :: "sort_key list" and xss :: "val list list list" and i
  assume "pickMin keys xss = Some i"
  then have "i < length xss" and "xss ! i \<noteq> []" by (auto dest: pickMin_Some)
  from sum_length_tl[OF this]
  show "((keys, xss[i := tl (xss ! i)]), keys, xss)
          \<in> measure (\<lambda>(keys, xss). sum_list (map length xss))"
    by simp
qed

declare mergeRows.simps [simp del]

lemma mergeRows_None: "pickMin keys xss = None \<Longrightarrow> mergeRows keys xss = []"
  by (subst mergeRows.simps) simp

lemma mergeRows_Some:
  "pickMin keys xss = Some i \<Longrightarrow>
     mergeRows keys xss = hd (xss ! i) # mergeRows keys (xss[i := tl (xss ! i)])"
  by (subst mergeRows.simps) simp

lemma concat_update_tl:
  assumes "i < length xss" and "xss ! i \<noteq> []"
  shows "mset (concat xss) = add_mset (hd (xss ! i)) (mset (concat (xss[i := tl (xss ! i)])))"
proof -
  have x: "xss = take i xss @ (xss ! i) # drop (Suc i) xss"
    using assms(1) by (simp add: id_take_nth_drop)
  have u: "xss[i := tl (xss ! i)] = take i xss @ tl (xss ! i) # drop (Suc i) xss"
    using assms(1) by (simp add: upd_conv_take_nth_drop)
  obtain y ys where y: "xss ! i = y # ys" using assms(2) by (cases "xss ! i") auto
  have "mset (concat xss) = mset (concat (take i xss)) + mset (xss ! i) + mset (concat (drop (Suc i) xss))"
    by (subst x) simp
  moreover have "mset (concat (xss[i := tl (xss ! i)])) =
      mset (concat (take i xss)) + mset (tl (xss ! i)) + mset (concat (drop (Suc i) xss))"
    by (subst u) simp
  ultimately show ?thesis using y by simp
qed

lemma mset_mergeRows: "mset (mergeRows keys xss) = mset (concat xss)"
proof (induction keys xss rule: mergeRows.induct)
  case (1 keys xss)
  show ?case
  proof (cases "pickMin keys xss")
    case None
    then have "\<forall>xs \<in> set xss. xs = []" by (simp add: pickMin_None)
    then have "concat xss = []" by simp
    with None show ?thesis by (simp add: mergeRows_None)
  next
    case (Some i)
    from pickMin_Some[OF Some] concat_update_tl[of i xss] "1.IH"[OF Some] Some
    show ?thesis by (simp add: mergeRows_Some)
  qed
qed

lemma length_mergeRows: "length (mergeRows keys xss) = sum_list (map length xss)"
proof -
  have "length (mergeRows keys xss) = size (mset (mergeRows keys xss))" by simp
  also have "\<dots> = length (concat xss)" by (simp add: mset_mergeRows)
  finally show ?thesis by (simp add: length_concat)
qed


lemma compareValues_refl: "compareValues f x x = 0"
  by (simp add: compareValues_def Let_def split: option.splits)

lemma compareValues_zero_eq: "compareValues f x y = 0 \<Longrightarrow> x = y"
  by (auto simp: compareValues_def Let_def split: option.splits if_splits)

lemma compareValues_antisym: "compareValues f x y < 0 \<longleftrightarrow> 0 < compareValues f y x"
  by (auto simp: compareValues_def Let_def split: option.splits if_splits)

lemma compareValues_trans:
  "compareValues f x y < 0 \<Longrightarrow> compareValues f y z < 0 \<Longrightarrow> compareValues f x z < 0"
  by (auto simp: compareValues_def Let_def split: option.splits if_splits)

lemma rowLess_irrefl: "\<not> rowLess keys r r"
  by (induction keys) (simp_all add: compareValues_refl Let_def)

lemma rowLess_trans:
  "rowLess keys a b \<Longrightarrow> rowLess keys b c \<Longrightarrow> rowLess keys a c"
proof (induction keys)
  case Nil
  then show ?case by simp
next
  case (Cons key keys)
  let ?ab = "compareValues (snd key) (a ! fst key) (b ! fst key)"
  let ?bc = "compareValues (snd key) (b ! fst key) (c ! fst key)"
  let ?ac = "compareValues (snd key) (a ! fst key) (c ! fst key)"
  show ?case
  proof (cases "?ab = 0")
    case ab0: True
    then have eq: "a ! fst key = b ! fst key" by (rule compareValues_zero_eq)
    show ?thesis
    proof (cases "?bc = 0")
      case True
      then have "b ! fst key = c ! fst key" by (rule compareValues_zero_eq)
      with eq have "?ac = 0" by (simp add: compareValues_refl)
      with ab0 True Cons show ?thesis by (simp add: Let_def)
    next
      case False
      with Cons.prems(2) have "?bc < 0" by (simp add: Let_def)
      with eq False show ?thesis by (simp add: Let_def)
    qed
  next
    case abn: False
    with Cons.prems(1) have ab: "?ab < 0" by (simp add: Let_def)
    show ?thesis
    proof (cases "?bc = 0")
      case True
      then have "b ! fst key = c ! fst key" by (rule compareValues_zero_eq)
      with ab abn show ?thesis by (simp add: Let_def)
    next
      case False
      with Cons.prems(2) have "?bc < 0" by (simp add: Let_def)
      with ab have "?ac < 0" by (rule compareValues_trans)
      then show ?thesis by (simp add: Let_def)
    qed
  qed
qed

lemma rowLe_trans:
  "rowLe keys a b \<Longrightarrow> rowLe keys b c \<Longrightarrow> rowLe keys a c"
  unfolding rowLe_def
proof (induction keys)
  case Nil
  then show ?case by simp
next
  case (Cons key keys)
  let ?ba = "compareValues (snd key) (b ! fst key) (a ! fst key)"
  let ?cb = "compareValues (snd key) (c ! fst key) (b ! fst key)"
  let ?ca = "compareValues (snd key) (c ! fst key) (a ! fst key)"
  show ?case
  proof (cases "?ba = 0")
    case ba0: True
    then have eq: "b ! fst key = a ! fst key" by (rule compareValues_zero_eq)
    with Cons.prems(2) have "\<not> rowLess (key # keys) c a"
    proof (cases "?cb = 0")
      case True
      with Cons.prems(2) have "\<not> rowLess keys c b" by (simp add: Let_def)
      moreover from ba0 Cons.prems(1) have "\<not> rowLess keys b a" by (simp add: Let_def)
      ultimately have "\<not> rowLess keys c a" using Cons.IH by blast
      with True eq show ?thesis by (simp add: Let_def)
    next
      case False
      with Cons.prems(2) have "\<not> ?cb < 0" by (simp add: Let_def)
      with False eq show ?thesis by (simp add: Let_def)
    qed
    then show ?thesis .
  next
    case ban: False
    with Cons.prems(1) have "\<not> ?ba < 0" by (simp add: Let_def)
    with ban have ab: "compareValues (snd key) (a ! fst key) (b ! fst key) < 0"
      using compareValues_antisym[of "snd key" "a ! fst key" "b ! fst key"] by linarith
    show ?thesis
    proof (cases "?cb = 0")
      case True
      then have "c ! fst key = b ! fst key" by (rule compareValues_zero_eq)
      with ab have "compareValues (snd key) (a ! fst key) (c ! fst key) < 0" by simp
      then have "0 < ?ca" by (simp add: compareValues_antisym)
      then show ?thesis by (simp add: Let_def)
    next
      case False
      with Cons.prems(2) have "\<not> ?cb < 0" by (simp add: Let_def)
      with False have "compareValues (snd key) (b ! fst key) (c ! fst key) < 0"
        using compareValues_antisym[of "snd key" "b ! fst key" "c ! fst key"] by linarith
      with ab have "compareValues (snd key) (a ! fst key) (c ! fst key) < 0"
        by (rule compareValues_trans)
      then have "0 < ?ca" by (simp add: compareValues_antisym)
      then show ?thesis by (simp add: Let_def)
    qed
  qed
qed

lemma rowLe_refl: "rowLe keys a a"
  by (simp add: rowLe_def rowLess_irrefl)

lemma rowLe_total: "rowLe keys a b \<or> rowLe keys b a"
  unfolding rowLe_def using rowLess_trans rowLess_irrefl by blast

text \<open>The fold of \<open>argMin\<close> ends on a least candidate.\<close>

lemma fold_argmin_least:
  assumes tr: "\<And>a b c. le a b \<Longrightarrow> le b c \<Longrightarrow> le a c"
    and rf: "\<And>a. le a a"
    and tot: "\<And>a b. le a b \<or> le b a"
    and lt: "\<And>a b. lt a b \<longleftrightarrow> \<not> le b a"
  shows "\<forall>j \<in> set (c # cs). le (fold (\<lambda>i best. if lt i best then i else best) cs c) j"
proof (induction cs arbitrary: c)
  case Nil
  then show ?case by (simp add: rf)
next
  case (Cons x cs)
  let ?c' = "if lt x c then x else c"
  have IH: "\<forall>j \<in> set (?c' # cs). le (fold (\<lambda>i best. if lt i best then i else best) cs ?c') j"
    by (rule Cons.IH)
  have c'c: "le ?c' c"
  proof (cases "lt x c")
    case True
    then have "\<not> le c x" by (simp add: lt)
    with tot[of x c] True show ?thesis by simp
  next
    case False
    then show ?thesis by (simp add: rf)
  qed
  have c'x: "le ?c' x"
  proof (cases "lt x c")
    case True
    then show ?thesis by (simp add: rf)
  next
    case False
    then show ?thesis by (simp add: lt)
  qed
  have f: "le (fold (\<lambda>i best. if lt i best then i else best) cs ?c') ?c'" using IH by simp
  from tr[OF f c'c] tr[OF f c'x] IH show ?case by auto
qed

lemma pickMin_least:
  assumes "pickMin keys xss = Some i" and "j < length xss" and "xss ! j \<noteq> []"
  shows "rowLe keys (hd (xss ! i)) (hd (xss ! j))"
proof -
  let ?le = "\<lambda>a b. rowLe keys (hd (xss ! a)) (hd (xss ! b))"
  let ?lt = "\<lambda>a b. rowLess keys (hd (xss ! a)) (hd (xss ! b))"
  let ?cands = "filter (\<lambda>i. xss ! i \<noteq> []) [0..<length xss]"
  from assms(1) obtain c cs where cc: "?cands = c # cs"
    and i: "i = fold (\<lambda>i best. if ?lt i best then i else best) cs c"
    by (auto simp: pickMin_def argMin_def split: list.splits)
  have "\<forall>j \<in> set (c # cs). ?le (fold (\<lambda>i best. if ?lt i best then i else best) cs c) j"
  proof (rule fold_argmin_least)
    show "\<And>a b c. ?le a b \<Longrightarrow> ?le b c \<Longrightarrow> ?le a c" by (rule rowLe_trans)
    show "\<And>a. ?le a a" by (rule rowLe_refl)
    show "\<And>a b. ?le a b \<or> ?le b a" by (rule rowLe_total)
    show "\<And>a b. ?lt a b \<longleftrightarrow> \<not> ?le b a" by (simp add: rowLe_def)
  qed
  moreover have "j \<in> set (c # cs)" using assms(2,3) cc[symmetric] by simp
  ultimately show ?thesis using i by blast
qed

lemma set_mergeRows: "set (mergeRows keys xss) = (\<Union>xs \<in> set xss. set xs)"
proof -
  have "set (mergeRows keys xss) = set_mset (mset (mergeRows keys xss))" by simp
  also have "\<dots> = set (concat xss)" by (simp add: mset_mergeRows)
  finally show ?thesis by simp
qed

lemma sorted_mergeRows:
  assumes "\<forall>xs \<in> set xss. sorted_wrt (rowLe keys) xs"
  shows "sorted_wrt (rowLe keys) (mergeRows keys xss)"
  using assms
proof (induction keys xss rule: mergeRows.induct)
  case (1 keys xss)
  show ?case
  proof (cases "pickMin keys xss")
    case None
    then show ?thesis by (simp add: mergeRows_None)
  next
    case (Some i)
    from pickMin_Some[OF Some] have i: "i < length xss" and ne: "xss ! i \<noteq> []" by auto
    let ?x = "hd (xss ! i)"
    let ?xss' = "xss[i := tl (xss ! i)]"
    have si: "sorted_wrt (rowLe keys) (xss ! i)" using "1.prems" i by simp
    have sorted': "\<forall>xs \<in> set ?xss'. sorted_wrt (rowLe keys) xs"
    proof
      fix xs assume "xs \<in> set ?xss'"
      then have "xs \<in> insert (tl (xss ! i)) (set xss)"
        using set_update_subset_insert[of xss i "tl (xss ! i)"] by (rule subsetD[rotated])
      then have "xs = tl (xss ! i) \<or> xs \<in> set xss" by simp
      then show "sorted_wrt (rowLe keys) xs"
      proof
        assume "xs = tl (xss ! i)"
        with si ne show ?thesis by (cases "xss ! i") auto
      next
        assume "xs \<in> set xss"
        with "1.prems" show ?thesis by simp
      qed
    qed
    have least: "\<forall>y \<in> set (mergeRows keys ?xss'). rowLe keys ?x y"
    proof
      fix y assume "y \<in> set (mergeRows keys ?xss')"
      then obtain xs where xs: "xs \<in> set ?xss'" and y: "y \<in> set xs"
        by (auto simp: set_mergeRows)
      from xs obtain j where j: "j < length xss" and xsj: "xs = ?xss' ! j"
        by (auto simp: in_set_conv_nth)
      have sub: "set xs \<subseteq> set (xss ! j)"
      proof (cases "j = i")
        case True
        with xsj i have "xs = tl (xss ! i)" by simp
        with True ne show ?thesis by (cases "xss ! i") auto
      next
        case False
        with xsj show ?thesis by simp
      qed
      with y have yj: "y \<in> set (xss ! j)" by blast
      then have nej: "xss ! j \<noteq> []" by auto
      have sj: "sorted_wrt (rowLe keys) (xss ! j)" using "1.prems" j by simp
      have hy: "rowLe keys (hd (xss ! j)) y"
        using sj yj nej by (cases "xss ! j") (auto simp: rowLe_refl)
      from pickMin_least[OF Some j nej] hy show "rowLe keys ?x y" by (rule rowLe_trans)
    qed
    from "1.IH"[OF Some sorted'] least Some show ?thesis
      by (simp add: mergeRows_Some)
  qed
qed


subsection \<open>Selection bitmaps and column copies\<close>


lemma set_selectedRows: "set (selectedRows bits) = {r. r < length bits \<and> bits ! r}"
  by (auto simp: selectedRows_def)

lemma distinct_selectedRows: "distinct (selectedRows bits)"
  by (simp add: selectedRows_def)

lemma selectedRows_clearAll: "selectedRows (clearAll bits) = []"
  by (simp add: selectedRows_def clearAll_def filter_empty_conv)

lemma length_clearAll: "length (clearAll bits) = length bits"
  by (simp add: clearAll_def)

lemma selectedRows_replicate_False: "selectedRows (replicate n False) = []"
  by (simp add: selectedRows_def filter_empty_conv)

lemma selectedRows_mark:
  assumes k: "k < length bits" and below: "\<forall>r \<in> set (selectedRows bits). r < k"
  shows "selectedRows (bits[k := True]) = selectedRows bits @ [k]"
proof -
  have split: "[0..<length bits] = [0..<k] @ k # [Suc k..<length bits]"
    using k by (metis le_add1 less_imp_add_positive upt_add_eq_append upt_conv_Cons zero_le
        less_or_eq_imp_le)
  have hi: "\<forall>r \<in> set [Suc k..<length bits]. \<not> bits ! r"
  proof
    fix r assume r: "r \<in> set [Suc k..<length bits]"
    show "\<not> bits ! r"
    proof
      assume "bits ! r"
      with r have "r \<in> set (selectedRows bits)" by (simp add: set_selectedRows)
      with below have "r < k" by blast
      with r show False by simp
    qed
  qed
  have nk: "\<not> bits ! k"
  proof
    assume "bits ! k"
    with k have "k \<in> set (selectedRows bits)" by (simp add: set_selectedRows)
    with below show False by blast
  qed
  have lo: "filter (\<lambda>r. bits[k := True] ! r) [0..<k] = filter (\<lambda>r. bits ! r) [0..<k]"
    by (rule filter_cong) auto
  have hi': "filter (\<lambda>r. bits[k := True] ! r) [Suc k..<length bits] = []"
    using hi by (auto simp: filter_empty_conv)
  have hi'': "filter (\<lambda>r. bits ! r) [Suc k..<length bits] = []"
    using hi by (auto simp: filter_empty_conv)
  have "selectedRows (bits[k := True]) =
        filter (\<lambda>r. bits[k := True] ! r) ([0..<k] @ k # [Suc k..<length bits])"
    using split by (simp add: selectedRows_def)
  also have "\<dots> = filter (\<lambda>r. bits ! r) [0..<k] @ [k]"
    using k by (simp add: lo hi')
  also have "filter (\<lambda>r. bits ! r) [0..<k] = selectedRows bits"
    unfolding selectedRows_def by (subst split) (simp add: nk hi'')
  finally show ?thesis .
qed

lemma assignSourceRows_length:
  "length (fst (assignSourceRows rs n rows)) = length rows"
  by (induction rs n rows rule: assignSourceRows.induct) auto

lemma assignSourceRows_snd: "snd (assignSourceRows rs n rows) = n + length rs"
  by (induction rs n rows rule: assignSourceRows.induct) auto

lemma assignSourceRows_other:
  "r \<notin> set rs \<Longrightarrow> fst (assignSourceRows rs n rows) ! r = rows ! r"
  by (induction rs n rows rule: assignSourceRows.induct) auto

lemma assignSourceRows_nth:
  assumes "distinct rs" and "\<forall>r \<in> set rs. r < length rows" and "j < length rs"
  shows "fst (assignSourceRows rs n rows) ! (rs ! j) = n + j"
  using assms
proof (induction rs n rows arbitrary: j rule: assignSourceRows.induct)
  case (1 sourceRow rows)
  then show ?case by simp
next
  case (2 r rs sourceRow rows)
  show ?case
  proof (cases j)
    case 0
    have "fst (assignSourceRows rs (Suc sourceRow) (rows[r := sourceRow])) ! r
          = (rows[r := sourceRow]) ! r"
      using "2.prems"(1) by (intro assignSourceRows_other) simp
    with 0 "2.prems"(2) show ?thesis by simp
  next
    case (Suc j')
    have "fst (assignSourceRows rs (Suc sourceRow) (rows[r := sourceRow])) ! (rs ! j')
          = Suc sourceRow + j'"
      using "2.prems" Suc by (intro "2.IH") auto
    with Suc show ?thesis by simp
  qed
qed

lemma copyColumn_length: "length (copyColumn target src rows toSrc) = length target"
  unfolding copyColumn_def by (induction rows arbitrary: target) auto

lemma copyColumn_nth:
  assumes "k < length target"
  shows "copyColumn target src rows toSrc ! k =
           (if k \<in> set rows then src ! (toSrc ! k) else target ! k)"
  using assms unfolding copyColumn_def
proof (induction rows arbitrary: target)
  case Nil
  then show ?case by simp
next
  case (Cons r rows)
  have "fold (\<lambda>r t. t[r := src ! (toSrc ! r)]) rows (target[r := src ! (toSrc ! r)]) ! k =
        (if k \<in> set rows then src ! (toSrc ! k) else (target[r := src ! (toSrc ! r)]) ! k)"
    using Cons.prems by (intro Cons.IH) simp
  with Cons.prems show ?case by (auto simp: nth_list_update)
qed

subsection \<open>One cursor: fetching, copying out, advancing\<close>

lemma length_rowsOf: "length (rowsOf d) = vsize d"
  by (simp add: rowsOf_def)

lemma rowsOf_nth: "r < vsize d \<Longrightarrow> rowsOf d ! r = rowAt d r"
  by (simp add: rowsOf_def)

lemma rowAt_by_index: "rowAt d r = map (\<lambda>i. children d ! i ! r) [0..<length (children d)]"
  unfolding rowAt_def by (rule nth_equalityI) auto

lemma pendingRows_Cons:
  "events src = e # es \<Longrightarrow> pendingRows src = eventRows e @ pendingRows (src\<lparr>events := es\<rparr>)"
  by (simp add: pendingRows_def)

lemma notReadyCount_NotReady:
  "events src = NotReady f # es \<Longrightarrow> notReadyCount src = Suc (notReadyCount (src\<lparr>events := es\<rparr>))"
  by (simp add: notReadyCount_def)

lemma notReadyCount_Batch:
  "events src = Batch b # es \<Longrightarrow> notReadyCount src = notReadyCount (src\<lparr>events := es\<rparr>)"
  by (simp add: notReadyCount_def)

lemma wfSource_tl:
  "wfSource ncols src \<Longrightarrow> events src = e # es \<Longrightarrow> wfSource ncols (src\<lparr>events := es\<rparr>)"
  by (simp add: wfSource_def)

text \<open>A fetch by a cursor that has used up its batch and has nothing selected.\<close>

lemma fetchMoreData_cursor:
  assumes len: "length (outputRows s) = B" "length (sourceRows s) = B"
    and keys: "streamKeys s = keys"
    and sel: "selectedRows (outputRows s) = []"
    and first: "firstSourceRow s = 0"
    and src: "wfSource ncols src"
    and used: "case data s of None \<Rightarrow> True | Some d \<Rightarrow> wfBatch ncols d \<and> currentSourceRow s = vsize d"
    and notEnd: "\<not> atEnd s"
    and fetch: "fetchMoreData s src fs = (blocked, s', src', fs')"
  shows "cursorOk B ncols keys outSize s' src' \<and>
      remainingRows s' src' = remainingRows s src \<and>
      outputRows s' = outputRows s \<and>
      needData s' = blocked \<and>
      (blocked \<longrightarrow> (\<exists>f. fs' = fs @ [f]) \<and> Suc (notReadyCount src') = notReadyCount src) \<and>
      (\<not> blocked \<longrightarrow> fs' = fs \<and> notReadyCount src' = notReadyCount src)"
proof -
  have rem0: "streamRows s = []"
    using used by (auto simp: streamRows_def length_rowsOf split: option.splits)
  show ?thesis
  proof (cases "events src")
    case Nil
    with fetch have r: "blocked = False" "src' = src" "fs' = fs"
      "s' = s\<lparr>data := None, atEnd := True, needData := False, currentSourceRow := 0\<rparr>"
      by (auto simp: fetchMoreData_def sourceNext_def Let_def)
    show ?thesis
      using r len keys sel src Nil rem0
      by (auto simp: cursorOk_def remainingRows_def streamRows_def pendingRows_def
          split: option.splits)
  next
    case (Cons e es)
    show ?thesis
    proof (cases e)
      case (NotReady f)
      with Cons fetch have r: "blocked = True" "src' = src\<lparr>events := es\<rparr>" "fs' = fs @ [f]"
        "s' = s\<lparr>data := data s, needData := True\<rparr>"
        by (auto simp: fetchMoreData_def sourceNext_def Let_def)
      have ev: "events src = NotReady f # es" using Cons NotReady by simp
      have c: "cursorOk B ncols keys outSize s' src'"
        using r len keys sel first wfSource_tl[OF src ev] used notEnd
        by (auto simp: cursorOk_def split: option.splits)
      have rm: "remainingRows s' src' = remainingRows s src"
        using r rem0 pendingRows_Cons[OF ev]
        by (auto simp: remainingRows_def streamRows_def eventRows_def length_rowsOf
            split: option.splits)
      from c rm r notReadyCount_NotReady[OF ev] show ?thesis by simp
    next
      case (Batch b)
      have ev: "events src = Batch b # es" using Cons Batch by simp
      have wb: "wfBatch ncols b" using src ev by (simp add: wfSource_def wfEvent_def)
      then have pos: "vsize b \<noteq> 0" by (simp add: wfBatch_def)
      with Cons Batch fetch have r: "blocked = False" "src' = src\<lparr>events := es\<rparr>" "fs' = fs"
        "s' = s\<lparr>data := Some b, atEnd := False, needData := False, currentSourceRow := 0,
                keyColumns := map (\<lambda>key. children b ! fst key) (streamKeys s)\<rparr>"
        by (auto simp: fetchMoreData_def sourceNext_def Let_def)
      have c: "cursorOk B ncols keys outSize s' src'"
        using r len keys sel first wfSource_tl[OF src ev] wb pos
        by (simp add: cursorOk_def)
      have rm: "remainingRows s' src' = remainingRows s src"
        using r rem0 pendingRows_Cons[OF ev]
        by (auto simp: remainingRows_def streamRows_def eventRows_def length_rowsOf
            split: option.splits)
      from c rm r notReadyCount_Batch[OF ev] show ?thesis by simp
    qed
  qed
qed

lemma selectedRows_Nil_iff: "selectedRows bits = [] \<longleftrightarrow> (\<forall>r < length bits. \<not> bits ! r)"
  by (auto simp: selectedRows_def filter_empty_conv)

text \<open>The copy of the selected rows of one cursor into the output batch.\<close>

lemma copyToOutput_flush:
  assumes len: "length (outputRows s) = B" "length (sourceRows s) = B"
    and out: "outputOk B ncols outSize (Some ov)"
    and dat: "selectedRows (outputRows s) \<noteq> [] \<longrightarrow>
                (\<exists>d. data s = Some d \<and> length (children d) = ncols)"
    and pend: "pendingOk L s"
  shows "\<exists>rows ov'.
      copyToOutput s (Some ov) =
        Inr ((if selectedRows (outputRows s) = [] then s
              else s\<lparr>sourceRows := rows, outputRows := clearAll (outputRows s),
                     firstSourceRow :=
                       (if firstSourceRow s + length (selectedRows (outputRows s)) =
                           vsize (the (data s))
                        then 0
                        else firstSourceRow s + length (selectedRows (outputRows s)))\<rparr>),
             Some ov') \<and>
      length rows = B \<and> outputOk B ncols outSize (Some ov') \<and>
      (\<forall>r < B. rowAt ov' r =
         (if r \<in> set (selectedRows (outputRows s)) then L ! r else rowAt ov r))"
proof (cases "selectedRows (outputRows s) = []")
  case True
  then have "copyToOutput s (Some ov) = Inr (s, Some ov)"
    by (simp add: copyToOutput_def hasSelections_def)
  with True out len show ?thesis by auto
next
  case False
  let ?sel = "selectedRows (outputRows s)"
  from False dat obtain d where d: "data s = Some d" and nc: "length (children d) = ncols"
    by blast
  let ?rows = "fst (assignSourceRows ?sel (firstSourceRow s) (sourceRows s))"
  let ?n = "snd (assignSourceRows ?sel (firstSourceRow s) (sourceRows s))"
  let ?ov' = "ov\<lparr>children :=
                 map (\<lambda>i. copyColumn (children ov ! i) (children d ! i) ?sel ?rows)
                   [0..<length (children ov)]\<rparr>"
  have n: "?n = firstSourceRow s + length ?sel" by (rule assignSourceRows_snd)
  have selB: "\<forall>r \<in> set ?sel. r < length (sourceRows s)"
    using len by (simp add: set_selectedRows)
  have c: "copyToOutput s (Some ov) =
      Inr (s\<lparr>sourceRows := ?rows, outputRows := clearAll (outputRows s),
             firstSourceRow := (if ?n = vsize d then 0 else ?n)\<rparr>, Some ?ov')"
    using False d by (simp add: copyToOutput_def hasSelections_def split: prod.splits)
  have lr: "length ?rows = B" using len by (simp add: assignSourceRows_length)
  from out have ovB: "vsize ov = B" and ovn: "length (children ov) = ncols"
    and ovc: "\<forall>c \<in> set (children ov). length c = B"
    by (simp_all add: outputOk_def)
  have o': "outputOk B ncols outSize (Some ?ov')"
    using ovB ovn ovc by (auto simp: outputOk_def copyColumn_length)
  have rows: "\<forall>r < B. rowAt ?ov' r = (if r \<in> set ?sel then L ! r else rowAt ov r)"
  proof (intro allI impI)
    fix r assume r: "r < B"
    have col: "\<And>i. i < ncols \<Longrightarrow>
        copyColumn (children ov ! i) (children d ! i) ?sel ?rows ! r =
          (if r \<in> set ?sel then children d ! i ! (?rows ! r) else children ov ! i ! r)"
    proof -
      fix i assume "i < ncols"
      with ovn ovc have "length (children ov ! i) = B" by simp
      with r show "copyColumn (children ov ! i) (children d ! i) ?sel ?rows ! r =
          (if r \<in> set ?sel then children d ! i ! (?rows ! r) else children ov ! i ! r)"
        by (simp add: copyColumn_nth)
    qed
    have ra: "rowAt ?ov' r =
        map (\<lambda>i. if r \<in> set ?sel then children d ! i ! (?rows ! r) else children ov ! i ! r)
          [0..<ncols]"
      unfolding rowAt_def using ovn col by (auto simp: map_nth)
    show "rowAt ?ov' r = (if r \<in> set ?sel then L ! r else rowAt ov r)"
    proof (cases "r \<in> set ?sel")
      case True
      then obtain j where j: "j < length ?sel" and rj: "r = ?sel ! j"
        by (auto simp: in_set_conv_nth)
      have "?rows ! r = firstSourceRow s + j"
        unfolding rj using distinct_selectedRows selB j by (rule assignSourceRows_nth)
      with ra True have "rowAt ?ov' r = map (\<lambda>i. children d ! i ! (firstSourceRow s + j)) [0..<ncols]"
        by simp
      also have "\<dots> = rowAt d (firstSourceRow s + j)"
        using nc by (simp add: rowAt_by_index)
      also have "\<dots> = L ! r"
        using pend j rj d by (simp add: pendingOk_def)
      finally show ?thesis using True by simp
    next
      case False
      with ra have "rowAt ?ov' r = map (\<lambda>i. children ov ! i ! r) [0..<ncols]" by simp
      also have "\<dots> = rowAt ov r" using ovn by (simp add: rowAt_by_index)
      finally show ?thesis using False by simp
    qed
  qed
  from c lr o' rows False d n show ?thesis
    by (intro exI[of _ ?rows] exI[of _ ?ov']) simp
qed

lemma copyToOutput_cursor:
  assumes c: "cursorOk B ncols keys outSize s src"
    and pend: "pendingOk L s"
    and out: "outputOk B ncols outSize (Some ov)"
  shows "\<exists>s' ov'. copyToOutput s (Some ov) = Inr (s', Some ov') \<and>
      cursorOk B ncols keys 0 s' src \<and>
      remainingRows s' src = remainingRows s src \<and>
      needData s' = needData s \<and>
      outputOk B ncols outSize (Some ov') \<and>
      (\<forall>r < B. rowAt ov' r =
         (if r \<in> set (selectedRows (outputRows s)) then L ! r else rowAt ov r))"
proof -
  let ?sel = "selectedRows (outputRows s)"
  from c have len: "length (outputRows s) = B" "length (sourceRows s) = B"
    by (simp_all add: cursorOk_def)
  have dat: "?sel \<noteq> [] \<longrightarrow> (\<exists>d. data s = Some d \<and> length (children d) = ncols)"
    using c by (auto simp: cursorOk_def wfBatch_def split: if_splits option.splits)
  from copyToOutput_flush[OF len out dat pend] obtain rows ov' where
    r: "copyToOutput s (Some ov) =
        Inr ((if ?sel = [] then s
              else s\<lparr>sourceRows := rows, outputRows := clearAll (outputRows s),
                     firstSourceRow :=
                       (if firstSourceRow s + length ?sel = vsize (the (data s)) then 0
                        else firstSourceRow s + length ?sel)\<rparr>),
             Some ov')"
    and lr: "length rows = B" and o': "outputOk B ncols outSize (Some ov')"
    and rows: "\<forall>r < B. rowAt ov' r = (if r \<in> set ?sel then L ! r else rowAt ov r)"
    by blast
  show ?thesis
  proof (cases "?sel = []")
    case True
    with c have "cursorOk B ncols keys 0 s src"
      by (simp add: cursorOk_def)
    with r True o' rows show ?thesis by auto
  next
    case False
    let ?s' = "s\<lparr>sourceRows := rows, outputRows := clearAll (outputRows s),
                     firstSourceRow :=
                       (if firstSourceRow s + length ?sel = vsize (the (data s)) then 0
                        else firstSourceRow s + length ?sel)\<rparr>"
    from c False obtain d where d: "data s = Some d" and na: "\<not> atEnd s" and nn: "\<not> needData s"
      and cur: "currentSourceRow s < vsize d"
      and fs: "firstSourceRow s + length ?sel = currentSourceRow s"
      and kc: "keyColumns s = map (\<lambda>key. children d ! fst key) keys"
      by (auto simp: cursorOk_def split: if_splits option.splits)
    have "cursorOk B ncols keys 0 ?s' src"
      using c d na nn cur fs kc lr
      by (simp add: cursorOk_def selectedRows_clearAll length_clearAll)
    moreover have "remainingRows ?s' src = remainingRows s src"
      by (simp add: remainingRows_def streamRows_def split: option.splits)
    ultimately show ?thesis using r False o' rows by auto
  qed
qed

lemma copyAllToOutput_flush:
  assumes "list_all2 (cursorOk B ncols keys outSize) ss srcs"
    and "\<forall>s \<in> set ss. pendingOk L s"
    and "outputOk B ncols outSize (Some ov)"
  shows "\<exists>ss' ov'. copyAllToOutput ss (Some ov) = Inr (ss', Some ov') \<and>
      list_all2 (cursorOk B ncols keys 0) ss' srcs \<and>
      map2 remainingRows ss' srcs = map2 remainingRows ss srcs \<and>
      map needData ss' = map needData ss \<and>
      outputOk B ncols outSize (Some ov') \<and>
      (\<forall>r < B. rowAt ov' r =
         (if \<exists>s \<in> set ss. r \<in> set (selectedRows (outputRows s)) then L ! r else rowAt ov r))"
  using assms
proof (induction ss srcs arbitrary: ov rule: list_all2_induct)
  case Nil
  then show ?case by simp
next
  case (Cons s ss src srcs)
  from Cons.prems(1) have ps: "pendingOk L s" and pss: "\<forall>s \<in> set ss. pendingOk L s" by simp_all
  from copyToOutput_cursor[OF Cons.hyps(1) ps Cons.prems(2)] obtain s' ov1 where
    c1: "copyToOutput s (Some ov) = Inr (s', Some ov1)"
    and k1: "cursorOk B ncols keys 0 s' src"
    and r1: "remainingRows s' src = remainingRows s src"
    and n1: "needData s' = needData s"
    and o1: "outputOk B ncols outSize (Some ov1)"
    and rows1: "\<forall>r < B. rowAt ov1 r =
         (if r \<in> set (selectedRows (outputRows s)) then L ! r else rowAt ov r)"
    by blast
  from Cons.IH[OF pss o1] obtain ss' ov' where
    c2: "copyAllToOutput ss (Some ov1) = Inr (ss', Some ov')"
    and k2: "list_all2 (cursorOk B ncols keys 0) ss' srcs"
    and r2: "map2 remainingRows ss' srcs = map2 remainingRows ss srcs"
    and n2: "map needData ss' = map needData ss"
    and o2: "outputOk B ncols outSize (Some ov')"
    and rows2: "\<forall>r < B. rowAt ov' r =
         (if \<exists>s \<in> set ss. r \<in> set (selectedRows (outputRows s)) then L ! r else rowAt ov1 r)"
    by blast
  have c: "copyAllToOutput (s # ss) (Some ov) = Inr (s' # ss', Some ov')"
    using c1 c2 by simp
  have rows: "\<forall>r < B. rowAt ov' r =
         (if \<exists>t \<in> set (s # ss). r \<in> set (selectedRows (outputRows t)) then L ! r
          else rowAt ov r)"
    using rows1 rows2 by auto
  from c k1 k2 r1 r2 n1 n2 o2 rows show ?case by auto
qed

lemma fold_argmin_cong:
  assumes "\<forall>i \<in> set (c # cs). \<forall>j \<in> set (c # cs). f i j = g i j"
  shows "fold (\<lambda>i best. if f i best then i else best) cs c =
         fold (\<lambda>i best. if g i best then i else best) cs c"
  using assms
proof (induction cs arbitrary: c)
  case Nil
  then show ?case by simp
next
  case (Cons x cs)
  have e: "f x c = g x c" using Cons.prems by simp
  have "\<forall>i \<in> set ((if g x c then x else c) # cs).
          \<forall>j \<in> set ((if g x c then x else c) # cs). f i j = g i j"
    using Cons.prems by auto
  from Cons.IH[OF this] e show ?case by simp
qed

lemma argMin_cong:
  assumes "cands = cands'" and "\<forall>i \<in> set cands. \<forall>j \<in> set cands. f i j = g i j"
  shows "argMin f cands = argMin g cands'"
proof (cases cands)
  case Nil
  with assms(1) show ?thesis by (simp add: argMin_def)
next
  case (Cons c cs)
  with assms(2) have "\<forall>i \<in> set (c # cs). \<forall>j \<in> set (c # cs). f i j = g i j" by simp
  from fold_argmin_cong[OF this] Cons assms(1) show ?thesis by (simp add: argMin_def)
qed

lemma length_remainders:
  "length (streams st) = length (sources st) \<Longrightarrow> length (remainders st) = length (streams st)"
  by (simp add: remainders_def)

lemma remainders_nth:
  "length (streams st) = length (sources st) \<Longrightarrow> i < length (streams st) \<Longrightarrow>
     remainders st ! i = remainingRows (streams st ! i) (sources st ! i)"
  by (simp add: remainders_def)

text \<open>A cursor that neither waits nor is at end stands on the first of its remaining rows.\<close>

lemma cursor_in_tournament:
  assumes c: "cursorOk B ncols keys outSize s src" and nn: "\<not> needData s"
    and ch: "\<forall>key \<in> set keys. fst key < ncols"
  shows "hasData s \<longleftrightarrow> remainingRows s src \<noteq> []"
    and "hasData s \<longleftrightarrow> \<not> atEnd s"
    and "hasData s \<Longrightarrow> currentRowLoaded s \<and> hd (remainingRows s src) = currentRow s"
proof -
  show a: "hasData s \<longleftrightarrow> \<not> atEnd s"
    using c nn by (auto simp: cursorOk_def hasData_def split: if_splits option.splits)
  show "hasData s \<longleftrightarrow> remainingRows s src \<noteq> []"
  proof (cases "atEnd s")
    case True
    with c have "events src = []" "data s = None" by (auto simp: cursorOk_def)
    then have "remainingRows s src = []"
      by (simp add: remainingRows_def streamRows_def pendingRows_def)
    with a True show ?thesis by simp
  next
    case False
    with c nn obtain d where d: "data s = Some d" "currentSourceRow s < vsize d"
      by (auto simp: cursorOk_def split: if_splits option.splits)
    then have "streamRows s \<noteq> []" by (simp add: streamRows_def length_rowsOf)
    with a False show ?thesis by (simp add: remainingRows_def)
  qed
  show "hasData s \<Longrightarrow> currentRowLoaded s \<and> hd (remainingRows s src) = currentRow s"
  proof -
    assume "hasData s"
    with a have na: "\<not> atEnd s" by simp
    with c nn obtain d where d: "data s = Some d" and cur: "currentSourceRow s < vsize d"
      and kc: "keyColumns s = map (\<lambda>key. children d ! fst key) keys"
      and wf: "wfBatch ncols d" and k: "streamKeys s = keys"
      by (auto simp: cursorOk_def split: if_splits option.splits)
    have l: "currentRowLoaded s"
      using d cur kc wf k ch by (simp add: currentRowLoaded_def wfBatch_def)
    have "streamRows s = drop (currentSourceRow s) (rowsOf d)" using d by (simp add: streamRows_def)
    moreover have "hd (drop (currentSourceRow s) (rowsOf d)) = rowAt d (currentSourceRow s)"
      using cur by (simp add: hd_drop_conv_nth length_rowsOf rowsOf_nth)
    moreover have "drop (currentSourceRow s) (rowsOf d) \<noteq> []" using cur by (simp add: length_rowsOf)
    ultimately have "hd (remainingRows s src) = currentRow s"
      using d by (simp add: remainingRows_def currentRow_def)
    with l show ?thesis by simp
  qed
qed

lemma treeNext_pickMin:
  assumes inv: "loopInv lo st L"
  shows "treeNext (streams st) = pickMin (sortingKeys st) (remainders st)"
proof -
  let ?ss = "streams st" and ?srcs = "sources st" and ?keys = "sortingKeys st"
  let ?rems = "remainders st"
  from inv have la: "list_all2 (cursorOk (outputBatchSize st) (outputType st) ?keys (outputSize st)) ?ss ?srcs"
    and nn: "\<forall>s \<in> set ?ss. \<not> needData s"
    and ch: "\<forall>key \<in> set ?keys. fst key < outputType st"
    by (simp_all add: loopInv_def mergeInv_def)
  from la have len: "length ?ss = length ?srcs" by (rule list_all2_lengthD)
  have lr: "length ?rems = length ?ss" using len by (rule length_remainders)
  have cur: "\<And>i. i < length ?ss \<Longrightarrow>
      cursorOk (outputBatchSize st) (outputType st) ?keys (outputSize st) (?ss ! i) (?srcs ! i)"
    using la by (simp add: list_all2_conv_all_nth)
  have hd: "\<And>i. i < length ?ss \<Longrightarrow> hasData (?ss ! i) \<longleftrightarrow> ?rems ! i \<noteq> []"
    using cursor_in_tournament(1)[OF cur _ ch] nn remainders_nth[OF len] by simp
  have cands: "filter (\<lambda>i. hasData (?ss ! i)) [0..<length ?ss] =
               filter (\<lambda>i. ?rems ! i \<noteq> []) [0..<length ?rems]"
    unfolding lr by (rule filter_cong) (auto simp: hd)
  have cmp: "\<forall>i \<in> set (filter (\<lambda>i. hasData (?ss ! i)) [0..<length ?ss]).
             \<forall>j \<in> set (filter (\<lambda>i. hasData (?ss ! i)) [0..<length ?ss]).
               streamLess (?ss ! i) (?ss ! j) = rowLess ?keys (hd (?rems ! i)) (hd (?rems ! j))"
  proof (intro ballI)
    fix i j
    assume "i \<in> set (filter (\<lambda>i. hasData (?ss ! i)) [0..<length ?ss])"
      and "j \<in> set (filter (\<lambda>i. hasData (?ss ! i)) [0..<length ?ss])"
    then have i: "i < length ?ss" "hasData (?ss ! i)" and j: "j < length ?ss" "hasData (?ss ! j)"
      by simp_all
    from nn i j have nni: "\<not> needData (?ss ! i)" and nnj: "\<not> needData (?ss ! j)" by simp_all
    from cursor_in_tournament(3)[OF cur[OF i(1)] nni ch i(2)]
    have li: "currentRowLoaded (?ss ! i)" and hi: "hd (?rems ! i) = currentRow (?ss ! i)"
      using remainders_nth[OF len i(1)] by simp_all
    from cursor_in_tournament(3)[OF cur[OF j(1)] nnj ch j(2)]
    have lj: "currentRowLoaded (?ss ! j)" and hj: "hd (?rems ! j) = currentRow (?ss ! j)"
      using remainders_nth[OF len j(1)] by simp_all
    have ki: "streamKeys (?ss ! i) = ?keys" and kj: "streamKeys (?ss ! j) = ?keys"
      using cur[OF i(1)] cur[OF j(1)] by (simp_all add: cursorOk_def)
    from streamLess_rowLess[OF li lj] ki kj hi hj
    show "streamLess (?ss ! i) (?ss ! j) = rowLess ?keys (hd (?rems ! i)) (hd (?rems ! j))"
      by simp
  qed
  have "treeNext ?ss = argMin (\<lambda>i best. streamLess (?ss ! i) (?ss ! best))
            (filter (\<lambda>i. hasData (?ss ! i)) [0..<length ?ss])"
    using nn by (simp add: treeNext_def)
  also have "\<dots> = argMin (\<lambda>i best. rowLess ?keys (hd (?rems ! i)) (hd (?rems ! best)))
            (filter (\<lambda>i. ?rems ! i \<noteq> []) [0..<length ?rems])"
    using cands cmp by (rule argMin_cong)
  finally show ?thesis by (simp add: pickMin_def)
qed

text \<open>
  One row of the winning cursor: the slot is marked, the selected rows are copied out when
  the row is the last of its batch, and the cursor advances.
\<close>

lemma cursor_advance:
  assumes c: "cursorOk B ncols keys k s src" and na: "\<not> atEnd s" and nn: "\<not> needData s"
    and kB: "k < B" and lenL: "length L = k" and pend: "pendingOk L s"
    and out: "outputOk B ncols k (Some ov)"
  shows "\<exists>atLast s1 s2 ov2 blocked s3 src3 fs3.
      setOutputRow s k = Inr (atLast, s1) \<and>
      (if atLast then copyToOutput s1 (Some ov) else Inr (s1, Some ov)) = Inr (s2, Some ov2) \<and>
      pop s2 src fs = Inr (blocked, s3, src3, fs3) \<and>
      cursorOk B ncols keys (Suc k) s3 src3 \<and>
      pendingOk (L @ [currentRow s]) s3 \<and>
      remainingRows s src = currentRow s # remainingRows s3 src3 \<and>
      outputOk B ncols k (Some ov2) \<and>
      (\<forall>r < B. rowAt ov2 r =
         (if r \<in> (set (selectedRows (outputRows s)) \<union> {k}) - set (selectedRows (outputRows s3))
          then (L @ [currentRow s]) ! r else rowAt ov r)) \<and>
      set (selectedRows (outputRows s3)) \<subseteq> set (selectedRows (outputRows s)) \<union> {k} \<and>
      needData s3 = blocked \<and>
      (blocked \<longrightarrow> (\<exists>f. fs3 = fs @ [f]) \<and> Suc (notReadyCount src3) = notReadyCount src) \<and>
      (\<not> blocked \<longrightarrow> fs3 = fs \<and> notReadyCount src3 = notReadyCount src)"
proof -
  let ?sel = "selectedRows (outputRows s)"
  let ?x = "currentRow s"
  let ?L1 = "L @ [?x]"
  from c na nn obtain d where d: "data s = Some d" and cur: "currentSourceRow s < vsize d"
    and fm: "firstSourceRow s + length ?sel = currentSourceRow s"
    and kc: "keyColumns s = map (\<lambda>key. children d ! fst key) keys"
    and wf: "wfBatch ncols d"
    by (auto simp: cursorOk_def split: if_splits option.splits)
  from c have lb: "length (outputRows s) = B" and ls: "length (sourceRows s) = B"
    and sk: "streamKeys s = keys" and below: "\<forall>r \<in> set ?sel. r < k"
    and ws: "wfSource ncols src"
    by (simp_all add: cursorOk_def)
  have x: "?x = rowAt d (currentSourceRow s)" using d by (simp add: currentRow_def)
  let ?s1 = "s\<lparr>outputRows := (outputRows s)[k := True]\<rparr>"
  have set1: "setOutputRow s k = Inr (Suc (currentSourceRow s) = vsize d, ?s1)"
    using d kB lb by (simp add: setOutputRow_def)
  have sel1: "selectedRows (outputRows ?s1) = ?sel @ [k]"
    using kB lb below by (simp add: selectedRows_mark)
  have pend1: "pendingOk ?L1 ?s1"
    unfolding pendingOk_def sel1
  proof (intro allI impI)
    fix j assume j: "j < length (?sel @ [k])"
    show "?L1 ! ((?sel @ [k]) ! j) = rowAt (the (data ?s1)) (firstSourceRow ?s1 + j)"
    proof (cases "j < length ?sel")
      case True
      then have "?sel ! j < k" using below by simp
      with True lenL pend d show ?thesis
        by (simp add: nth_append pendingOk_def)
    next
      case False
      with j have "j = length ?sel" by simp
      with lenL fm x d show ?thesis by (simp add: nth_append)
    qed
  qed
  have rem: "remainingRows s src = ?x # (drop (Suc (currentSourceRow s)) (rowsOf d) @ pendingRows src)"
    using d cur x
    by (simp add: remainingRows_def streamRows_def Cons_nth_drop_Suc[symmetric]
        length_rowsOf rowsOf_nth)
  show ?thesis
  proof (cases "Suc (currentSourceRow s) = vsize d")
    case atLast: True
    have dat1: "selectedRows (outputRows ?s1) \<noteq> [] \<longrightarrow>
        (\<exists>d. data ?s1 = Some d \<and> length (children d) = ncols)"
      using d wf by (simp add: wfBatch_def)
    have l1: "length (outputRows ?s1) = B" "length (sourceRows ?s1) = B" using lb ls by simp_all
    from copyToOutput_flush[OF l1 out dat1 pend1] obtain rows ov2 where
      cp: "copyToOutput ?s1 (Some ov) =
        Inr ((if selectedRows (outputRows ?s1) = [] then ?s1
              else ?s1\<lparr>sourceRows := rows, outputRows := clearAll (outputRows ?s1),
                     firstSourceRow :=
                       (if firstSourceRow ?s1 + length (selectedRows (outputRows ?s1)) =
                           vsize (the (data ?s1))
                        then 0
                        else firstSourceRow ?s1 + length (selectedRows (outputRows ?s1)))\<rparr>),
             Some ov2)"
      and lr: "length rows = B" and o2: "outputOk B ncols k (Some ov2)"
      and rows: "\<forall>r < B. rowAt ov2 r =
         (if r \<in> set (selectedRows (outputRows ?s1)) then ?L1 ! r else rowAt ov r)"
      by blast
    let ?s2 = "s\<lparr>outputRows := clearAll ((outputRows s)[k := True]), sourceRows := rows,
                  firstSourceRow := 0\<rparr>"
    have cp': "copyToOutput ?s1 (Some ov) = Inr (?s2, Some ov2)"
      using cp sel1 fm atLast d by simp
    let ?s2' = "?s2\<lparr>currentSourceRow := currentSourceRow ?s2 + 1\<rparr>"
    obtain blocked s3 src3 fs3 where
      fetch: "fetchMoreData ?s2' src fs = (blocked, s3, src3, fs3)"
      using prod_cases4 by blast
    have pp: "pop ?s2 src fs = Inr (blocked, s3, src3, fs3)"
      using d atLast fetch
      by (simp add: pop_def Let_def hasSelections_def selectedRows_clearAll)
    have used: "case data ?s2' of None \<Rightarrow> True
                | Some d \<Rightarrow> wfBatch ncols d \<and> currentSourceRow ?s2' = vsize d"
      using d wf atLast by simp
    from fetchMoreData_cursor[of ?s2' B keys ncols src fs blocked s3 src3 fs3 "Suc k", OF _ _ _ _ _ ws used _ fetch]
    have f: "cursorOk B ncols keys (Suc k) s3 src3 \<and>
      remainingRows s3 src3 = remainingRows ?s2' src \<and>
      outputRows s3 = outputRows ?s2' \<and>
      needData s3 = blocked \<and>
      (blocked \<longrightarrow> (\<exists>f. fs3 = fs @ [f]) \<and> Suc (notReadyCount src3) = notReadyCount src) \<and>
      (\<not> blocked \<longrightarrow> fs3 = fs \<and> notReadyCount src3 = notReadyCount src)"
      using lb lr sk na by (simp add: length_clearAll selectedRows_clearAll)
    then have sel3: "selectedRows (outputRows s3) = []" by (simp add: selectedRows_clearAll)
    have r2': "remainingRows ?s2' src = pendingRows src"
      using d atLast by (simp add: remainingRows_def streamRows_def length_rowsOf)
    have rem3: "remainingRows s src = ?x # remainingRows s3 src3"
      using rem f r2' atLast by (simp add: length_rowsOf)
    have p3: "pendingOk ?L1 s3" using sel3 by (simp add: pendingOk_def)
    have rows3: "\<forall>r < B. rowAt ov2 r =
         (if r \<in> (set ?sel \<union> {k}) - set (selectedRows (outputRows s3))
          then ?L1 ! r else rowAt ov r)"
      using rows sel1 sel3 by simp
    show ?thesis
      by (rule exI[of _ True], rule exI[of _ ?s1], rule exI[of _ ?s2], rule exI[of _ ov2],
          rule exI[of _ blocked], rule exI[of _ s3], rule exI[of _ src3], rule exI[of _ fs3])
         (use set1 atLast cp' pp f rem3 p3 o2 rows3 sel3 in simp)
  next
    case notLast: False
    let ?s3 = "?s1\<lparr>currentSourceRow := currentSourceRow ?s1 + 1\<rparr>"
    have pp: "pop ?s1 src fs = Inr (False, ?s3, src, fs)"
      using d notLast by (simp add: pop_def Let_def)
    have sel3: "selectedRows (outputRows ?s3) = ?sel @ [k]" using sel1 by simp
    have c3: "cursorOk B ncols keys (Suc k) ?s3 src"
      using c d cur notLast fm kc wf na nn below sel1 lb
      by (auto simp: cursorOk_def)
    have p3: "pendingOk ?L1 ?s3" using pend1 by (simp add: pendingOk_def)
    have rem3: "remainingRows s src = ?x # remainingRows ?s3 src"
      using rem d by (simp add: remainingRows_def streamRows_def)
    have rows3: "\<forall>r < B. rowAt ov r =
         (if r \<in> (set ?sel \<union> {k}) - set (selectedRows (outputRows ?s3))
          then ?L1 ! r else rowAt ov r)"
      using sel3 by auto
    show ?thesis
      by (rule exI[of _ False], rule exI[of _ ?s1], rule exI[of _ ?s1], rule exI[of _ ov],
          rule exI[of _ False], rule exI[of _ ?s3], rule exI[of _ src], rule exI[of _ fs])
         (use set1 notLast pp c3 p3 rem3 out rows3 sel3 nn in simp)
  qed
qed

subsection \<open>One pass of the merge loop\<close>

lemma cursorOk_mono:
  "cursorOk B ncols keys k s src \<Longrightarrow> k \<le> k' \<Longrightarrow> cursorOk B ncols keys k' s src"
  unfolding cursorOk_def by (elim conjE, intro conjI) auto

lemma pendingOk_append:
  assumes "pendingOk L s" and "\<forall>r \<in> set (selectedRows (outputRows s)). r < length L"
  shows "pendingOk (L @ ys) s"
  using assms by (simp add: pendingOk_def nth_append)

lemma map2_update:
  assumes "length xs = length ys" and "i < length xs"
  shows "map2 f (xs[i := a]) (ys[i := b]) = (map2 f xs ys)[i := f a b]"
  using assms by (intro nth_equalityI) (auto simp: nth_list_update)

lemma sum_list_map_update:
  fixes f :: "'a \<Rightarrow> nat"
  assumes "i < length xs"
  shows "sum_list (map f (xs[i := y])) + f (xs ! i) = sum_list (map f xs) + f y"
proof -
  have x: "xs = take i xs @ xs ! i # drop (Suc i) xs"
    using assms by (simp add: id_take_nth_drop)
  have u: "xs[i := y] = take i xs @ y # drop (Suc i) xs"
    using assms by (simp add: upd_conv_take_nth_drop)
  have "sum_list (map f xs) = sum_list (map f (take i xs)) + f (xs ! i) + sum_list (map f (drop (Suc i) xs))"
    by (subst x) simp
  moreover have "sum_list (map f (xs[i := y])) =
      sum_list (map f (take i xs)) + f y + sum_list (map f (drop (Suc i) xs))"
    by (subst u) simp
  ultimately show ?thesis by simp
qed

lemma rowsOf_eqI:
  assumes "vsize b = length L" and "\<forall>r < length L. rowAt b r = L ! r"
  shows "rowsOf b = L"
  using assms by (intro nth_equalityI) (simp_all add: rowsOf_def)

text \<open>The state after the winner's row has been taken, before the loop decides how to go on.\<close>

lemma mergeStep_taken:
  assumes inv: "loopInv lo st L" and w: "treeNext (streams st) = Some w"
  shows "\<exists>atLast s1 s2 ov2 blocked s3 src3 fs3.
      setOutputRow (streams st ! w) (outputSize st) = Inr (atLast, s1) \<and>
      (if atLast then copyToOutput s1 (outputBatch st) else Inr (s1, outputBatch st)) =
         Inr (s2, Some ov2) \<and>
      pop s2 (sources st ! w) (sourceBlockingFutures st) = Inr (blocked, s3, src3, fs3) \<and>
      (let st3 = st\<lparr>streams := (streams st)[w := s3], sources := (sources st)[w := src3],
                     outputBatch := Some ov2, outputSize := outputSize st + 1,
                     sourceBlockingFutures := fs3\<rparr>;
           L1 = L @ [hd (remainders st ! w)]
       in pickMin (sortingKeys st) (remainders st) = Some w \<and>
          w < length (streams st) \<and>
          list_all2 (cursorOk (outputBatchSize st) (outputType st) (sortingKeys st)
                       (Suc (outputSize st))) (streams st3) (sources st3) \<and>
          (\<forall>s \<in> set (streams st3). pendingOk L1 s) \<and>
          copiedOk L1 (Suc (outputSize st)) (streams st3) (outputBatch st3) \<and>
          outputOk (outputBatchSize st) (outputType st) (Suc (outputSize st)) (outputBatch st3) \<and>
          remainders st3 = (remainders st)[w := tl (remainders st ! w)] \<and>
          workLeft st3 < workLeft st \<and>
          (fs3 = [] \<longrightarrow> (\<forall>s \<in> set (streams st3). \<not> needData s)))"
proof -
  let ?ss = "streams st" and ?srcs = "sources st" and ?keys = "sortingKeys st"
  let ?B = "outputBatchSize st" and ?n = "outputType st" and ?k = "outputSize st"
  let ?rems = "remainders st"
  from inv have la: "list_all2 (cursorOk ?B ?n ?keys ?k) ?ss ?srcs"
    and nn: "\<forall>s \<in> set ?ss. \<not> needData s"
    and ch: "\<forall>key \<in> set ?keys. fst key < ?n"
    and kB: "?k < ?B" and lenL: "length L = ?k"
    and pend: "\<forall>s \<in> set ?ss. pendingOk L s"
    and copied: "copiedOk L ?k ?ss (outputBatch st)"
    and oOk: "outputOk ?B ?n ?k (outputBatch st)"
    and fs0: "sourceBlockingFutures st = []"
    and ob: "outputBatch st \<noteq> None"
    by (simp_all add: loopInv_def mergeInv_def)
  from ob obtain ov where ov: "outputBatch st = Some ov" by auto
  from la have len: "length ?ss = length ?srcs" by (rule list_all2_lengthD)
  have pm: "pickMin ?keys ?rems = Some w" using treeNext_pickMin[OF inv] w by simp
  from pickMin_Some[OF pm] length_remainders[OF len]
  have wl: "w < length ?ss" and ne: "?rems ! w \<noteq> []" by simp_all
  have cw: "cursorOk ?B ?n ?keys ?k (?ss ! w) (?srcs ! w)"
    using la wl by (simp add: list_all2_conv_all_nth)
  have nnw: "\<not> needData (?ss ! w)" using nn wl by simp
  have remw: "?rems ! w = remainingRows (?ss ! w) (?srcs ! w)"
    using remainders_nth[OF len wl] .
  have hd: "hasData (?ss ! w)"
    using cursor_in_tournament(1)[OF cw nnw ch] ne remw by simp
  then have na: "\<not> atEnd (?ss ! w)" using cursor_in_tournament(2)[OF cw nnw ch] by simp
  have hdx: "hd (?rems ! w) = currentRow (?ss ! w)"
    using cursor_in_tournament(3)[OF cw nnw ch hd] remw by simp
  have pw: "pendingOk L (?ss ! w)" using pend wl by simp
  have oOk': "outputOk ?B ?n ?k (Some ov)" using oOk ov by simp
  from cursor_advance[OF cw na nnw kB lenL pw oOk', of "[]"]
  obtain atLast s1 s2 ov2 blocked s3 src3 fs3 where
    m: "setOutputRow (?ss ! w) ?k = Inr (atLast, s1)"
    and cp: "(if atLast then copyToOutput s1 (Some ov) else Inr (s1, Some ov)) = Inr (s2, Some ov2)"
    and pp: "pop s2 (?srcs ! w) [] = Inr (blocked, s3, src3, fs3)"
    and c3: "cursorOk ?B ?n ?keys (Suc ?k) s3 src3"
    and p3: "pendingOk (L @ [currentRow (?ss ! w)]) s3"
    and r3: "remainingRows (?ss ! w) (?srcs ! w) = currentRow (?ss ! w) # remainingRows s3 src3"
    and o2: "outputOk ?B ?n ?k (Some ov2)"
    and rows: "\<forall>r < ?B. rowAt ov2 r =
         (if r \<in> (set (selectedRows (outputRows (?ss ! w))) \<union> {?k}) - set (selectedRows (outputRows s3))
          then (L @ [currentRow (?ss ! w)]) ! r else rowAt ov r)"
    and sub: "set (selectedRows (outputRows s3)) \<subseteq> set (selectedRows (outputRows (?ss ! w))) \<union> {?k}"
    and nd: "needData s3 = blocked"
    and bl: "blocked \<longrightarrow> (\<exists>f. fs3 = [] @ [f]) \<and> Suc (notReadyCount src3) = notReadyCount (?srcs ! w)"
    and nb: "\<not> blocked \<longrightarrow> fs3 = [] \<and> notReadyCount src3 = notReadyCount (?srcs ! w)"
    by blast
  let ?L1 = "L @ [hd (?rems ! w)]"
  let ?ss3 = "?ss[w := s3]" and ?srcs3 = "?srcs[w := src3]"
  have la3: "list_all2 (cursorOk ?B ?n ?keys (Suc ?k)) ?ss3 ?srcs3"
  proof (rule list_all2_update_cong)
    show "list_all2 (cursorOk ?B ?n ?keys (Suc ?k)) ?ss ?srcs"
      using la by (rule list_all2_mono) (auto intro: cursorOk_mono)
    show "cursorOk ?B ?n ?keys (Suc ?k) s3 src3" by (rule c3)
  qed
  have below: "\<And>s. s \<in> set ?ss \<Longrightarrow> \<forall>r \<in> set (selectedRows (outputRows s)). r < ?k"
  proof -
    fix s assume "s \<in> set ?ss"
    then obtain i where i: "i < length ?ss" "s = ?ss ! i" by (auto simp: in_set_conv_nth)
    with la have "cursorOk ?B ?n ?keys ?k s (?srcs ! i)" by (simp add: list_all2_conv_all_nth)
    then show "\<forall>r \<in> set (selectedRows (outputRows s)). r < ?k" by (simp add: cursorOk_def)
  qed
  have pend3: "\<forall>s \<in> set ?ss3. pendingOk ?L1 s"
  proof
    fix s assume "s \<in> set ?ss3"
    then have "s = s3 \<or> s \<in> set ?ss"
      using set_update_subset_insert[of ?ss w s3] by auto
    then show "pendingOk ?L1 s"
    proof
      assume "s = s3" with p3 hdx show ?thesis by simp
    next
      assume s: "s \<in> set ?ss"
      with pend have "pendingOk L s" by simp
      moreover from below[OF s] lenL have "\<forall>r \<in> set (selectedRows (outputRows s)). r < length L"
        by simp
      ultimately show ?thesis by (rule pendingOk_append)
    qed
  qed
  have copied3: "copiedOk ?L1 (Suc ?k) ?ss3 (Some ov2)"
    unfolding copiedOk_def
  proof (intro allI impI)
    fix r assume r: "r < Suc ?k" and free: "\<forall>s \<in> set ?ss3. r \<notin> set (selectedRows (outputRows s))"
    have rB: "r < ?B" using r kB by simp
    have s3in: "s3 \<in> set ?ss3" using wl by (simp add: set_update_memI)
    with free have r3: "r \<notin> set (selectedRows (outputRows s3))" by simp
    show "case Some ov2 of None \<Rightarrow> False | Some ov \<Rightarrow> rowAt ov r = ?L1 ! r"
    proof (cases "r \<in> set (selectedRows (outputRows (?ss ! w))) \<union> {?k}")
      case True
      with rows rB r3 hdx show ?thesis by simp
    next
      case False
      then have rk: "r < ?k" and rw: "r \<notin> set (selectedRows (outputRows (?ss ! w)))"
        using r by auto
      have "\<forall>s \<in> set ?ss. r \<notin> set (selectedRows (outputRows s))"
      proof
        fix s assume "s \<in> set ?ss"
        then obtain i where i: "i < length ?ss" "s = ?ss ! i" by (auto simp: in_set_conv_nth)
        show "r \<notin> set (selectedRows (outputRows s))"
        proof (cases "i = w")
          case True with rw i show ?thesis by simp
        next
          case False
          with i have "s = ?ss3 ! i" by simp
          with i have "s \<in> set ?ss3" by (metis length_list_update nth_mem)
          with free show ?thesis by simp
        qed
      qed
      with copied rk ov have "rowAt ov r = L ! r" by (simp add: copiedOk_def)
      moreover from rows rB False r3 have "rowAt ov2 r = rowAt ov r" by simp
      ultimately show ?thesis using rk lenL by (simp add: nth_append)
    qed
  qed
  have o3: "outputOk ?B ?n (Suc ?k) (Some ov2)" using o2 by (simp add: outputOk_def)
  have rems3: "map2 remainingRows ?ss3 ?srcs3 = ?rems[w := tl (?rems ! w)]"
    using map2_update[OF len wl, of remainingRows s3 src3] r3 remw
    by (simp add: remainders_def)
  have rows_dec: "Suc (sum_list (map length (?rems[w := tl (?rems ! w)]))) = sum_list (map length ?rems)"
    using sum_length_tl[of w ?rems] wl ne length_remainders[OF len] by simp
  have wsrc: "w < length ?srcs" using wl len by simp
  have nr: "sum_list (map notReadyCount ?srcs3) + notReadyCount (?srcs ! w) =
            sum_list (map notReadyCount ?srcs) + notReadyCount src3"
    using sum_list_map_update[OF wsrc, of notReadyCount src3] .
  have work: "2 * sum_list (map notReadyCount ?srcs3) + length fs3 +
                sum_list (map length (?rems[w := tl (?rems ! w)]))
              < 2 * sum_list (map notReadyCount ?srcs) + 0 + sum_list (map length ?rems)"
  proof (cases blocked)
    case True
    with bl obtain f where "fs3 = [f]" and "Suc (notReadyCount src3) = notReadyCount (?srcs ! w)"
      by auto
    with nr rows_dec show ?thesis by simp
  next
    case False
    with nb have "fs3 = []" and "notReadyCount src3 = notReadyCount (?srcs ! w)" by auto
    with nr rows_dec show ?thesis by simp
  qed
  have need3: "fs3 = [] \<longrightarrow> (\<forall>s \<in> set ?ss3. \<not> needData s)"
  proof (intro impI ballI)
    fix s assume e: "fs3 = []" and s: "s \<in> set ?ss3"
    from e bl have "\<not> blocked" by auto
    with nd have "\<not> needData s3" by simp
    moreover from s have "s = s3 \<or> s \<in> set ?ss"
      using set_update_subset_insert[of ?ss w s3] by auto
    ultimately show "\<not> needData s" using nn by auto
  qed
  let ?st3 = "st\<lparr>streams := ?ss3, sources := ?srcs3, outputBatch := Some ov2,
                  outputSize := ?k + 1, sourceBlockingFutures := fs3\<rparr>"
  have rems3': "remainders ?st3 = ?rems[w := tl (?rems ! w)]"
    using rems3 by (simp add: remainders_def)
  have work': "workLeft ?st3 < workLeft st"
    using work fs0 rems3' unfolding workLeft_def by simp
  have cp': "(if atLast then copyToOutput s1 (outputBatch st) else Inr (s1, outputBatch st)) =
         Inr (s2, Some ov2)"
    using cp unfolding ov .
  have pp': "pop s2 (?srcs ! w) (sourceBlockingFutures st) = Inr (blocked, s3, src3, fs3)"
    using pp fs0 by simp
  have body: "pickMin ?keys ?rems = Some w \<and> w < length ?ss \<and>
          list_all2 (cursorOk ?B ?n ?keys (Suc ?k)) (streams ?st3) (sources ?st3) \<and>
          (\<forall>s \<in> set (streams ?st3). pendingOk ?L1 s) \<and>
          copiedOk ?L1 (Suc ?k) (streams ?st3) (outputBatch ?st3) \<and>
          outputOk ?B ?n (Suc ?k) (outputBatch ?st3) \<and>
          remainders ?st3 = ?rems[w := tl (?rems ! w)] \<and>
          workLeft ?st3 < workLeft st \<and>
          (fs3 = [] \<longrightarrow> (\<forall>s \<in> set (streams ?st3). \<not> needData s))"
    using pm wl la3 pend3 copied3 o3 rems3' work' need3 by simp
  show ?thesis
    by (rule exI[of _ atLast], rule exI[of _ s1], rule exI[of _ s2], rule exI[of _ ov2],
        rule exI[of _ blocked], rule exI[of _ s3], rule exI[of _ src3], rule exI[of _ fs3])
       (use m cp' pp' body in \<open>unfold Let_def, blast\<close>)
qed

lemma rowAt_resize:
  assumes "r < n" and "\<forall>c \<in> set (children ov). n \<le> length c"
  shows "rowAt (resizeRowVector n ov) r = rowAt ov r"
  using assms by (auto simp: rowAt_def resizeRowVector_def resizeColumn_def nth_append)

lemma mergeStep_exhausted:
  assumes inv: "loopInv lo st L" and w: "treeNext (streams st) = None"
  shows "\<exists>out st'. mergeStep st = Inr (Done out st') \<and> finished st' \<and>
      mergeRows (sortingKeys st) (remainders st) = [] \<and> outRows out = L \<and>
      sortingKeys st' = sortingKeys st \<and> outputBatchSize st' = outputBatchSize st \<and>
      (\<forall>b. out = Some b \<longrightarrow> 0 < vsize b \<and> vsize b \<le> outputBatchSize st)"
proof -
  let ?ss = "streams st" and ?srcs = "sources st" and ?keys = "sortingKeys st"
  let ?B = "outputBatchSize st" and ?n = "outputType st" and ?k = "outputSize st"
  let ?rems = "remainders st"
  from inv have la: "list_all2 (cursorOk ?B ?n ?keys ?k) ?ss ?srcs"
    and nn: "\<forall>s \<in> set ?ss. \<not> needData s"
    and ch: "\<forall>key \<in> set ?keys. fst key < ?n"
    and kB: "?k < ?B" and lenL: "length L = ?k"
    and copied: "copiedOk L ?k ?ss (outputBatch st)"
    and oOk: "outputOk ?B ?n ?k (outputBatch st)"
    and ob: "outputBatch st \<noteq> None" and tr: "treeOfLosers st"
    by (simp_all add: loopInv_def mergeInv_def)
  from ob obtain ov where ov: "outputBatch st = Some ov" by auto
  from la have len: "length ?ss = length ?srcs" by (rule list_all2_lengthD)
  have pm: "pickMin ?keys ?rems = None" using treeNext_pickMin[OF inv] w by simp
  then have empty: "\<forall>xs \<in> set ?rems. xs = []" by (simp add: pickMin_None)
  have mr: "mergeRows ?keys ?rems = []" using pm by (rule mergeRows_None)
  have nosel: "\<forall>s \<in> set ?ss. selectedRows (outputRows s) = []"
  proof
    fix s assume "s \<in> set ?ss"
    then obtain i where i: "i < length ?ss" "s = ?ss ! i" by (auto simp: in_set_conv_nth)
    with la have c: "cursorOk ?B ?n ?keys ?k s (?srcs ! i)" by (simp add: list_all2_conv_all_nth)
    from i nn have n: "\<not> needData s" by simp
    have "?rems ! i \<in> set ?rems" using i length_remainders[OF len] by simp
    with empty have "?rems ! i = []" by blast
    with remainders_nth[OF len i(1)] i have "remainingRows s (?srcs ! i) = []" by simp
    with cursor_in_tournament(1,2)[OF c n ch] have "atEnd s" by simp
    with c show "selectedRows (outputRows s) = []" by (simp add: cursorOk_def)
  qed
  have rows: "\<forall>r < ?k. rowAt ov r = L ! r"
    using copied nosel ov by (simp add: copiedOk_def)
  show ?thesis
  proof (cases "?k = 0")
    case True
    with w tr lenL mr show ?thesis by (simp add: mergeStep_def outRows_def)
  next
    case False
    let ?b = "resizeRowVector ?k ov"
    have step: "mergeStep st = Inr (Done (Some ?b) (st\<lparr>finished := True, outputBatch := None\<rparr>))"
      using w tr False ov by (simp add: mergeStep_def)
    from oOk ov have colB: "\<forall>c \<in> set (children ov). length c = ?B" by (simp add: outputOk_def)
    with kB have "\<forall>c \<in> set (children ov). ?k \<le> length c" by simp
    then have "\<forall>r < length L. rowAt ?b r = L ! r"
      using rows lenL by (simp add: rowAt_resize)
    moreover have "vsize ?b = length L" using lenL by (simp add: resizeRowVector_def)
    ultimately have "rowsOf ?b = L" by (intro rowsOf_eqI) simp_all
    moreover have "0 < vsize ?b \<and> vsize ?b \<le> ?B"
      using False kB by (simp add: resizeRowVector_def)
    ultimately show ?thesis using step mr by (simp add: outRows_def)
  qed
qed

lemma mergeStep_winner:
  assumes inv: "loopInv lo st L" and w: "treeNext (streams st) = Some w"
  shows "\<exists>r L'. mergeStep st = Inr r \<and>
      pickMin (sortingKeys st) (remainders st) = Some w \<and>
      outRows (stepOut r) @ L' = L @ [hd (remainders st ! w)] \<and>
      mergeInv lo (stepState r) L' \<and>
      remainders (stepState r) = (remainders st)[w := tl (remainders st ! w)] \<and>
      sortingKeys (stepState r) = sortingKeys st \<and>
      outputBatchSize (stepState r) = outputBatchSize st \<and>
      workLeft (stepState r) < workLeft st \<and>
      (case r of
         Again st' \<Rightarrow> loopInv lo st' L'
       | Done out st' \<Rightarrow> (\<forall>b. out = Some b \<longrightarrow> vsize b = outputBatchSize st))"
proof -
  let ?ss = "streams st" and ?srcs = "sources st" and ?keys = "sortingKeys st"
  let ?B = "outputBatchSize st" and ?n = "outputType st" and ?k = "outputSize st"
  let ?rems = "remainders st"
  let ?L1 = "L @ [hd (?rems ! w)]"
  from inv have tr: "treeOfLosers st" and nf: "\<not> finished st"
    and ns: "numStartedSources st = length ?srcs" and n1: "lo \<le> length ?srcs"
    and ch: "\<forall>key \<in> set ?keys. fst key < ?n"
    and kB: "?k < ?B" and lenL: "length L = ?k"
    by (simp_all add: loopInv_def mergeInv_def)
  from mergeStep_taken[OF inv w]
  obtain atLast s1 s2 ov2 blocked s3 src3 fs3 where
    m: "setOutputRow (?ss ! w) ?k = Inr (atLast, s1)"
    and cp: "(if atLast then copyToOutput s1 (outputBatch st) else Inr (s1, outputBatch st)) =
         Inr (s2, Some ov2)"
    and pp: "pop s2 (?srcs ! w) (sourceBlockingFutures st) = Inr (blocked, s3, src3, fs3)"
    and body: "let st3 = st\<lparr>streams := ?ss[w := s3], sources := ?srcs[w := src3],
                     outputBatch := Some ov2, outputSize := ?k + 1,
                     sourceBlockingFutures := fs3\<rparr>;
           L1 = ?L1
       in pickMin ?keys ?rems = Some w \<and>
          w < length ?ss \<and>
          list_all2 (cursorOk ?B ?n ?keys (Suc ?k)) (streams st3) (sources st3) \<and>
          (\<forall>s \<in> set (streams st3). pendingOk L1 s) \<and>
          copiedOk L1 (Suc ?k) (streams st3) (outputBatch st3) \<and>
          outputOk ?B ?n (Suc ?k) (outputBatch st3) \<and>
          remainders st3 = ?rems[w := tl (?rems ! w)] \<and>
          workLeft st3 < workLeft st \<and>
          (fs3 = [] \<longrightarrow> (\<forall>s \<in> set (streams st3). \<not> needData s))"
    by blast
  let ?ss3 = "?ss[w := s3]" and ?srcs3 = "?srcs[w := src3]"
  let ?st3 = "st\<lparr>streams := ?ss3, sources := ?srcs3, outputBatch := Some ov2,
                  outputSize := ?k + 1, sourceBlockingFutures := fs3\<rparr>"
  from body have pm: "pickMin ?keys ?rems = Some w"
    and la3: "list_all2 (cursorOk ?B ?n ?keys (Suc ?k)) ?ss3 ?srcs3"
    and pend3: "\<forall>s \<in> set ?ss3. pendingOk ?L1 s"
    and copied3: "copiedOk ?L1 (Suc ?k) ?ss3 (Some ov2)"
    and o3: "outputOk ?B ?n (Suc ?k) (Some ov2)"
    and rems3: "remainders ?st3 = ?rems[w := tl (?rems ! w)]"
    and work3: "workLeft ?st3 < workLeft st"
    and need3: "fs3 = [] \<longrightarrow> (\<forall>s \<in> set ?ss3. \<not> needData s)"
    unfolding Let_def by simp_all
  have lenL1: "length ?L1 = Suc ?k" using lenL by simp
  show ?thesis
  proof (cases "Suc ?k = ?B")
    case full: True
    from copyAllToOutput_flush[OF la3 pend3 o3] obtain ss4 ov4 where
      ca: "copyAllToOutput ?ss3 (Some ov2) = Inr (ss4, Some ov4)"
      and la4: "list_all2 (cursorOk ?B ?n ?keys 0) ss4 ?srcs3"
      and rems4: "map2 remainingRows ss4 ?srcs3 = map2 remainingRows ?ss3 ?srcs3"
      and o4: "outputOk ?B ?n (Suc ?k) (Some ov4)"
      and rows4: "\<forall>r < ?B. rowAt ov4 r =
         (if \<exists>s \<in> set ?ss3. r \<in> set (selectedRows (outputRows s)) then ?L1 ! r
          else rowAt ov2 r)"
      by blast
    let ?st4 = "?st3\<lparr>streams := ss4, outputBatch := None, outputSize := 0\<rparr>"
    have step: "mergeStep st = Inr (Done (Some ov4) ?st4)"
      using tr w kB m cp pp full ca by (simp add: mergeStep_def)
    have all: "\<forall>r < length ?L1. rowAt ov4 r = ?L1 ! r"
    proof (intro allI impI)
      fix r assume r: "r < length ?L1"
      then have rB: "r < ?B" and rk: "r < Suc ?k" using lenL1 full by simp_all
      show "rowAt ov4 r = ?L1 ! r"
      proof (cases "\<exists>s \<in> set ?ss3. r \<in> set (selectedRows (outputRows s))")
        case True
        with rows4 rB show ?thesis by simp
      next
        case False
        with copied3 rk have "rowAt ov2 r = ?L1 ! r" by (simp add: copiedOk_def)
        with rows4 rB False show ?thesis by simp
      qed
    qed
    have "vsize ov4 = length ?L1" using o4 lenL1 full by (simp add: outputOk_def)
    with all have ro: "rowsOf ov4 = ?L1" by (intro rowsOf_eqI) simp_all
    have vs: "vsize ov4 = ?B" using o4 by (simp add: outputOk_def)
    have nosel: "\<forall>s \<in> set ss4. pendingOk [] s"
    proof
      fix s assume "s \<in> set ss4"
      then obtain i where i: "i < length ss4" "s = ss4 ! i" by (auto simp: in_set_conv_nth)
      with la4 have "cursorOk ?B ?n ?keys 0 s (?srcs3 ! i)" by (simp add: list_all2_conv_all_nth)
      then have "selectedRows (outputRows s) = []" by (simp add: cursorOk_def)
      then show "pendingOk [] s" by (simp add: pendingOk_def)
    qed
    have inv4: "mergeInv lo ?st4 []"
      using tr nf ns n1 ch kB la4 nosel
      by (simp add: mergeInv_def copiedOk_def outputOk_def)
    have rem4: "remainders ?st4 = ?rems[w := tl (?rems ! w)]"
      using rems4 rems3 by (simp add: remainders_def)
    have work4: "workLeft ?st4 < workLeft st"
      using work3 rems4 by (simp add: workLeft_def remainders_def)
    show ?thesis
      by (rule exI[of _ "Done (Some ov4) ?st4"], rule exI[of _ "[]"])
         (use step pm ro inv4 rem4 work4 vs in \<open>simp add: stepOut_def stepState_def outRows_def\<close>)
  next
    case notFull: False
    with kB have k1: "Suc ?k < ?B" by simp
    have inv3: "mergeInv lo ?st3 ?L1"
      using tr nf ns n1 ch k1 lenL1 la3 pend3 copied3 o3
      by (simp add: mergeInv_def)
    show ?thesis
    proof (cases "fs3 = []")
      case True
      have step: "mergeStep st = Inr (Again ?st3)"
        using tr w kB m cp pp notFull True by (simp add: mergeStep_def)
      have "loopInv lo ?st3 ?L1" using inv3 True need3 by (simp add: loopInv_def)
      then show ?thesis
        by (intro exI[of _ "Again ?st3"] exI[of _ ?L1])
           (use step pm inv3 rems3 work3 in \<open>simp add: stepOut_def stepState_def outRows_def\<close>)
    next
      case False
      have step: "mergeStep st = Inr (Done None ?st3)"
        using tr w kB m cp pp notFull False by (simp add: mergeStep_def)
      show ?thesis
        by (rule exI[of _ "Done None ?st3"], rule exI[of _ ?L1])
           (use step pm inv3 rems3 work3 in \<open>simp add: stepOut_def stepState_def outRows_def\<close>)
    qed
  qed
qed

subsection \<open>The merge loop and \<open>getOutput\<close>\<close>



text \<open>
  The loop returns; what it returns and what it leaves to do add up to what was to do.
\<close>

lemma mergeLoop_correct:
  assumes "loopInv lo st L"
  shows "\<exists>out st' L'. mergeLoop st = Inr (out, st') \<and>
      sortingKeys st' = sortingKeys st \<and> outputBatchSize st' = outputBatchSize st \<and>
      (\<forall>b. out = Some b \<longrightarrow> 0 < vsize b \<and> vsize b \<le> outputBatchSize st) \<and>
      (\<not> finished st' \<longrightarrow> (\<forall>b. out = Some b \<longrightarrow> vsize b = outputBatchSize st)) \<and>
      (if finished st' then outRows out = L @ mergeRows (sortingKeys st) (remainders st)
       else outRows out @ L' @ mergeRows (sortingKeys st) (remainders st') =
              L @ mergeRows (sortingKeys st) (remainders st) \<and>
            mergeInv lo st' L' \<and> workLeft st' < workLeft st)"
  using assms
proof (induction st arbitrary: L rule: mergeLoop.induct)
  case (1 st)
  note inv = "1.prems"
  let ?keys = "sortingKeys st"
  show ?case
  proof (cases "treeNext (streams st)")
    case None
    from mergeStep_exhausted[OF inv None] obtain out st' where
      s: "mergeStep st = Inr (Done out st')" and f: "finished st'"
      and mr: "mergeRows ?keys (remainders st) = []" and o: "outRows out = L"
      and fr: "sortingKeys st' = ?keys" "outputBatchSize st' = outputBatchSize st"
      and sz: "\<forall>b. out = Some b \<longrightarrow> 0 < vsize b \<and> vsize b \<le> outputBatchSize st"
      by blast
    have "mergeLoop st = Inr (out, st')" using s by (subst mergeLoop.simps) simp
    with f mr o fr sz show ?thesis by auto
  next
    case (Some w)
    from mergeStep_winner[OF inv Some] obtain r L1 where
      s: "mergeStep st = Inr r"
      and pm: "pickMin ?keys (remainders st) = Some w"
      and o: "outRows (stepOut r) @ L1 = L @ [hd (remainders st ! w)]"
      and i1: "mergeInv lo (stepState r) L1"
      and rm: "remainders (stepState r) = (remainders st)[w := tl (remainders st ! w)]"
      and fr: "sortingKeys (stepState r) = ?keys" "outputBatchSize (stepState r) = outputBatchSize st"
      and wk: "workLeft (stepState r) < workLeft st"
      and cs: "case r of Again st' \<Rightarrow> loopInv lo st' L1
               | Done out st' \<Rightarrow> (\<forall>b. out = Some b \<longrightarrow> vsize b = outputBatchSize st)"
      by blast
    have B: "0 < outputBatchSize st" using inv by (simp add: loopInv_def mergeInv_def)
    have mr: "mergeRows ?keys (remainders st) =
        hd (remainders st ! w) # mergeRows ?keys (remainders (stepState r))"
      using mergeRows_Some[OF pm] rm by simp
    have total: "outRows (stepOut r) @ L1 @ mergeRows ?keys (remainders (stepState r)) =
        L @ mergeRows ?keys (remainders st)"
      using o mr by (metis append.assoc append_Cons append_Nil)
    show ?thesis
    proof (cases r)
      case (Done out st1)
      have ml: "mergeLoop st = Inr (out, st1)" using s Done by (subst mergeLoop.simps) simp
      from i1 Done have nf: "\<not> finished st1" by (simp add: stepState_def mergeInv_def)
      from cs Done B have sz: "\<forall>b. out = Some b \<longrightarrow> 0 < vsize b \<and> vsize b \<le> outputBatchSize st"
        by auto
      from cs Done have full: "\<forall>b. out = Some b \<longrightarrow> vsize b = outputBatchSize st" by simp
      show ?thesis
        by (rule exI[of _ out], rule exI[of _ st1], rule exI[of _ L1])
           (use ml nf sz full total i1 wk fr Done in \<open>simp add: stepState_def stepOut_def\<close>)
    next
      case (Again st1)
      with cs have l1: "loopInv lo st1 L1" by simp
      from "1.IH"[OF s Again l1] obtain out st' L' where
        ml1: "mergeLoop st1 = Inr (out, st')"
        and fr': "sortingKeys st' = sortingKeys st1" "outputBatchSize st' = outputBatchSize st1"
        and sz: "\<forall>b. out = Some b \<longrightarrow> 0 < vsize b \<and> vsize b \<le> outputBatchSize st1"
        and full: "\<not> finished st' \<longrightarrow> (\<forall>b. out = Some b \<longrightarrow> vsize b = outputBatchSize st1)"
        and post: "if finished st' then outRows out = L1 @ mergeRows (sortingKeys st1) (remainders st1)
           else outRows out @ L' @ mergeRows (sortingKeys st1) (remainders st') =
                  L1 @ mergeRows (sortingKeys st1) (remainders st1) \<and>
                mergeInv lo st' L' \<and> workLeft st' < workLeft st1"
        by blast
      have ml: "mergeLoop st = Inr (out, st')"
        using s Again ml1 by (subst mergeLoop.simps) simp
      from fr Again have k1: "sortingKeys st1 = ?keys" and b1: "outputBatchSize st1 = outputBatchSize st"
        by (simp_all add: stepState_def)
      from total Again have t1: "L1 @ mergeRows ?keys (remainders st1) =
          L @ mergeRows ?keys (remainders st)"
        by (simp add: stepState_def stepOut_def outRows_def)
      from wk Again have w1: "workLeft st1 < workLeft st" by (simp add: stepState_def)
      show ?thesis
        by (rule exI[of _ out], rule exI[of _ st'], rule exI[of _ L'])
           (use ml fr' sz full post k1 b1 t1 w1 in \<open>auto split: if_splits\<close>)
    qed
  qed
qed

lemma createOutput_ok: "outputOk B ncols k (Some (createOutput ncols B))"
  by (simp add: outputOk_def createOutput_def resizeColumn_def)

subsection \<open>\<open>isBlocked\<close> and the driver\<close>

lemma streamIsBlocked_cursor:
  assumes c: "cursorOk B ncols keys k s src"
    and r: "streamIsBlocked s src fs = (blocked, s', src', fs')"
  shows "cursorOk B ncols keys k s' src' \<and>
      remainingRows s' src' = remainingRows s src \<and>
      outputRows s' = outputRows s \<and>
      (needData s' \<longrightarrow> blocked) \<and>
      (needData s \<longrightarrow> selectedRows (outputRows s) = []) \<and>
      (s' \<noteq> s \<longrightarrow> needData s) \<and>
      notReadyCount src' + length fs' = notReadyCount src + length fs \<and>
      length fs \<le> length fs' \<and> (blocked \<longrightarrow> length fs < length fs')"
proof (cases "needData s")
  case False
  with r c show ?thesis by (auto simp: streamIsBlocked_def)
next
  case True
  with r have f: "fetchMoreData s src fs = (blocked, s', src', fs')"
    by (simp add: streamIsBlocked_def)
  from c True have na: "\<not> atEnd s" by (auto simp: cursorOk_def split: if_splits)
  from c True na have sel: "selectedRows (outputRows s) = []" and first: "firstSourceRow s = 0"
    and used: "case data s of None \<Rightarrow> True
               | Some d \<Rightarrow> wfBatch ncols d \<and> currentSourceRow s = vsize d"
    by (auto simp: cursorOk_def split: option.splits)
  from c have len: "length (outputRows s) = B" "length (sourceRows s) = B"
    and keys: "streamKeys s = keys" and src: "wfSource ncols src"
    by (simp_all add: cursorOk_def)
  from fetchMoreData_cursor[OF len keys sel first src used na f, of k]
  show ?thesis using sel True by auto
qed

lemma pollStreams_ok:
  assumes "list_all2 (cursorOk B ncols keys k) ss srcs" and "\<forall>s \<in> set ss. pendingOk L s"
  shows "\<exists>ss' srcs' fs'. pollStreams ss srcs fs = (ss', srcs', fs') \<and>
      list_all2 (cursorOk B ncols keys k) ss' srcs' \<and>
      map2 remainingRows ss' srcs' = map2 remainingRows ss srcs \<and>
      map outputRows ss' = map outputRows ss \<and>
      (\<forall>s \<in> set ss'. pendingOk L s) \<and>
      sum_list (map notReadyCount srcs') + length fs' =
        sum_list (map notReadyCount srcs) + length fs \<and>
      length fs \<le> length fs' \<and>
      (length fs' = length fs \<longrightarrow> (\<forall>s \<in> set ss'. \<not> needData s))"
  using assms
proof (induction ss srcs arbitrary: fs rule: list_all2_induct)
  case Nil
  then show ?case by simp
next
  case (Cons s ss src srcs)
  obtain blocked s' src' fs1 where r: "streamIsBlocked s src fs = (blocked, s', src', fs1)"
    using prod_cases4 by blast
  from streamIsBlocked_cursor[OF Cons.hyps(1) r]
  have c1: "cursorOk B ncols keys k s' src'"
    and r1: "remainingRows s' src' = remainingRows s src"
    and o1: "outputRows s' = outputRows s"
    and n1: "needData s' \<longrightarrow> blocked"
    and e1: "needData s \<longrightarrow> selectedRows (outputRows s) = []"
    and ch1: "s' \<noteq> s \<longrightarrow> needData s"
    and cnt1: "notReadyCount src' + length fs1 = notReadyCount src + length fs"
    and le1: "length fs \<le> length fs1" and lt1: "blocked \<longrightarrow> length fs < length fs1"
    by simp_all
  from Cons.prems have ps: "pendingOk L s" and pss: "\<forall>s \<in> set ss. pendingOk L s" by simp_all
  have ps': "pendingOk L s'"
  proof (cases "s' = s")
    case True with ps show ?thesis by simp
  next
    case False
    with ch1 e1 o1 have "selectedRows (outputRows s') = []" by simp
    then show ?thesis by (simp add: pendingOk_def)
  qed
  from Cons.IH[OF pss, of fs1] obtain ss' srcs' fs' where
    p: "pollStreams ss srcs fs1 = (ss', srcs', fs')"
    and la: "list_all2 (cursorOk B ncols keys k) ss' srcs'"
    and rm: "map2 remainingRows ss' srcs' = map2 remainingRows ss srcs"
    and om: "map outputRows ss' = map outputRows ss"
    and pn: "\<forall>s \<in> set ss'. pendingOk L s"
    and cnt: "sum_list (map notReadyCount srcs') + length fs' =
        sum_list (map notReadyCount srcs) + length fs1"
    and le: "length fs1 \<le> length fs'"
    and nn: "length fs' = length fs1 \<longrightarrow> (\<forall>s \<in> set ss'. \<not> needData s)"
    by blast
  have pc: "pollStreams (s # ss) (src # srcs) fs = (s' # ss', src' # srcs', fs')"
    using r p by simp
  have nn': "length fs' = length fs \<longrightarrow> (\<forall>t \<in> set (s' # ss'). \<not> needData t)"
  proof
    assume e: "length fs' = length fs"
    with le le1 have "length fs1 = length fs" and "length fs' = length fs1" by simp_all
    with lt1 n1 nn show "\<forall>t \<in> set (s' # ss'). \<not> needData t" by auto
  qed
  from pc c1 la r1 rm o1 om ps' pn cnt1 cnt le1 le nn' show ?case by simp
qed

lemma copiedOk_same_bits:
  assumes "map outputRows ss' = map outputRows ss"
  shows "copiedOk L k ss' out = copiedOk L k ss out"
proof -
  have a: "\<And>xs r. (\<forall>s \<in> set xs. r \<notin> set (selectedRows (outputRows s))) =
                 (\<forall>b \<in> set (map outputRows xs). r \<notin> set (selectedRows b))"
    by simp
  show ?thesis unfolding copiedOk_def a assms ..
qed

lemma pollAndReport_ok:
  assumes inv: "mergeInv lo st L" and r: "pollAndReport f st = (reason, f', st')"
  shows "mergeInv lo st' L \<and> remainders st' = remainders st \<and>
      sortingKeys st' = sortingKeys st \<and> outputBatchSize st' = outputBatchSize st \<and>
      (reason = kNotBlocked \<longrightarrow>
         sourceBlockingFutures st' = [] \<and> (\<forall>s \<in> set (streams st'). \<not> needData s) \<and>
         workLeft st' \<le> workLeft st) \<and>
      (reason \<noteq> kNotBlocked \<longrightarrow> workLeft st' < workLeft st)"
proof (cases "sourceBlockingFutures st = []")
  case False
  with r have e: "reason = kWaitForProducer"
    "st' = st\<lparr>sourceBlockingFutures := butlast (sourceBlockingFutures st)\<rparr>"
    by (simp_all add: pollAndReport_def Let_def)
  have "mergeInv lo st' L" using inv e by (simp add: mergeInv_def)
  moreover have "remainders st' = remainders st" using e by (simp add: remainders_def)
  moreover have "workLeft st' < workLeft st"
    using e False by (simp add: workLeft_def remainders_def)
  ultimately show ?thesis using e by simp
next
  case True
  let ?B = "outputBatchSize st" and ?n = "outputType st" and ?keys = "sortingKeys st"
  let ?k = "outputSize st"
  from inv have la: "list_all2 (cursorOk ?B ?n ?keys ?k) (streams st) (sources st)"
    and pend: "\<forall>s \<in> set (streams st). pendingOk L s"
    by (simp_all add: mergeInv_def)
  from pollStreams_ok[OF la pend, of "[]"] obtain ss' srcs' fs' where
    p: "pollStreams (streams st) (sources st) [] = (ss', srcs', fs')"
    and la': "list_all2 (cursorOk ?B ?n ?keys ?k) ss' srcs'"
    and rm: "map2 remainingRows ss' srcs' = map2 remainingRows (streams st) (sources st)"
    and om: "map outputRows ss' = map outputRows (streams st)"
    and pn: "\<forall>s \<in> set ss'. pendingOk L s"
    and cnt: "sum_list (map notReadyCount srcs') + length fs' =
        sum_list (map notReadyCount (sources st)) + length ([] :: continue_future list)"
    and nn: "length fs' = length ([] :: continue_future list) \<longrightarrow> (\<forall>s \<in> set ss'. \<not> needData s)"
    by blast
  let ?st4 = "st\<lparr>streams := ss', sources := srcs', sourceBlockingFutures := fs'\<rparr>"
  have "length (map2 remainingRows ss' srcs') =
        length (map2 remainingRows (streams st) (sources st))"
    using rm by simp
  then have lens: "length srcs' = length (sources st)"
    using list_all2_lengthD[OF la] list_all2_lengthD[OF la'] by simp
  have inv4: "mergeInv lo ?st4 L"
    using inv la' pn lens copiedOk_same_bits[OF om] by (simp add: mergeInv_def)
  have rem4: "remainders ?st4 = remainders st" using rm by (simp add: remainders_def)
  show ?thesis
  proof (cases "fs' = []")
    case e: True
    with r True p have "reason = kNotBlocked" "st' = ?st4"
      by (simp_all add: pollAndReport_def Let_def)
    moreover have "workLeft ?st4 \<le> workLeft st"
      using cnt e True rem4 by (simp add: workLeft_def)
    ultimately show ?thesis using inv4 rem4 nn e by simp
  next
    case ne: False
    with r True p have e: "reason = kWaitForProducer"
      "st' = ?st4\<lparr>sourceBlockingFutures := butlast fs'\<rparr>"
      by (simp_all add: pollAndReport_def Let_def)
    have "mergeInv lo st' L" using inv4 e by (simp add: mergeInv_def)
    moreover have "remainders st' = remainders st" using rem4 e by (simp add: remainders_def)
    moreover have "workLeft st' < workLeft st"
    proof -
      from ne have pos: "0 < length fs'" by simp
      from cnt have "sum_list (map notReadyCount srcs') + length fs' =
          sum_list (map notReadyCount (sources st))" by simp
      with pos have "2 * sum_list (map notReadyCount srcs') + (length fs' - 1)
          < 2 * sum_list (map notReadyCount (sources st))" by linarith
      with e True rem4 show ?thesis by (simp add: workLeft_def remainders_def)
    qed
    ultimately show ?thesis using e by simp
  qed
qed

lemma drive_driveWith:
  "drive hook n st acc = driveWith (isBlocked hook) getOutput isFinished n st acc"
  by (induction n arbitrary: st acc) (simp_all add: Let_def split: sum.splits prod.splits)

lemma mergeStep_more:
  "mergeStep st = Inr r \<Longrightarrow> merge_state.more (stepState r) = merge_state.more st"
  by (auto simp: mergeStep_def stepState_def Let_def
      split: if_splits option.splits sum.splits prod.splits)

lemma mergeLoop_more:
  "mergeLoop st = Inr (out, st') \<Longrightarrow> merge_state.more st' = merge_state.more st"
proof (induction st rule: mergeLoop.induct)
  case (1 st)
  from "1.prems" obtain r where s: "mergeStep st = Inr r"
    by (subst (asm) mergeLoop.simps) (auto split: sum.splits)
  show ?case
  proof (cases r)
    case (Done out1 st1)
    with s "1.prems" have "st' = st1"
      by (subst (asm) mergeLoop.simps) simp
    with mergeStep_more[OF s] Done show ?thesis by (simp add: stepState_def)
  next
    case (Again st1)
    with s "1.prems" have l: "mergeLoop st1 = Inr (out, st')"
      by (subst (asm) mergeLoop.simps) simp
    from "1.IH"[OF s Again l] mergeStep_more[OF s] Again show ?thesis
      by (simp add: stepState_def)
  qed
qed

lemma pollAndReport_more:
  "pollAndReport f st = (reason, f', st') \<Longrightarrow> merge_state.more st' = merge_state.more st"
  by (auto simp: pollAndReport_def Let_def split: if_splits prod.splits)

text \<open>A call of \<open>getOutput\<close> that enters the merge loop.\<close>

lemma mergeCall_correct:
  assumes inv: "mergeInv lo st L" and fs: "sourceBlockingFutures st = []"
    and nn: "\<forall>s \<in> set (streams st). \<not> needData s"
  shows "\<exists>out st' L'. mergeLoop (withOutput st) = Inr (out, st') \<and>
      sortingKeys st' = sortingKeys st \<and> outputBatchSize st' = outputBatchSize st \<and>
      merge_state.more st' = merge_state.more st \<and>
      (\<forall>b. out = Some b \<longrightarrow> 0 < vsize b \<and> vsize b \<le> outputBatchSize st) \<and>
      (\<not> finished st' \<longrightarrow> (\<forall>b. out = Some b \<longrightarrow> vsize b = outputBatchSize st)) \<and>
      (if finished st' then outRows out = L @ mergeRows (sortingKeys st) (remainders st)
       else outRows out @ L' @ mergeRows (sortingKeys st) (remainders st') =
              L @ mergeRows (sortingKeys st) (remainders st) \<and>
            mergeInv lo st' L' \<and> workLeft st' < workLeft st)"
proof -
  let ?st1 = "withOutput st"
  have i1: "mergeInv lo ?st1 L"
  proof (cases "outputBatch st")
    case None
    with inv have z: "outputSize st = 0" by (simp add: mergeInv_def outputOk_def)
    have "copiedOk L 0 (streams st)
            (Some (createOutput (outputType st) (outputBatchSize st)))"
      by (simp add: copiedOk_def)
    with inv None z show ?thesis
      unfolding mergeInv_def withOutput_def by (auto simp: createOutput_ok)
  next
    case (Some ov)
    with inv show ?thesis by (simp add: withOutput_def)
  qed
  have l1: "loopInv lo ?st1 L" using i1 fs nn by (simp add: loopInv_def withOutput_def)
  have r1: "remainders ?st1 = remainders st" by (simp add: remainders_def withOutput_def)
  have w1: "workLeft ?st1 = workLeft st" by (simp add: workLeft_def remainders_def withOutput_def)
  have k1: "sortingKeys ?st1 = sortingKeys st" "outputBatchSize ?st1 = outputBatchSize st"
    by (simp_all add: withOutput_def)
  have m1: "merge_state.more ?st1 = merge_state.more st" by (simp add: withOutput_def)
  from mergeLoop_correct[OF l1] obtain out st' L' where
    ml: "mergeLoop ?st1 = Inr (out, st')"
    and rest: "sortingKeys st' = sortingKeys ?st1 \<and> outputBatchSize st' = outputBatchSize ?st1 \<and>
      (\<forall>b. out = Some b \<longrightarrow> 0 < vsize b \<and> vsize b \<le> outputBatchSize ?st1) \<and>
      (\<not> finished st' \<longrightarrow> (\<forall>b. out = Some b \<longrightarrow> vsize b = outputBatchSize ?st1)) \<and>
      (if finished st' then outRows out = L @ mergeRows (sortingKeys ?st1) (remainders ?st1)
       else outRows out @ L' @ mergeRows (sortingKeys ?st1) (remainders st') =
              L @ mergeRows (sortingKeys ?st1) (remainders ?st1) \<and>
            mergeInv lo st' L' \<and> workLeft st' < workLeft ?st1)"
    by blast
  from mergeLoop_more[OF ml] m1 have mo: "merge_state.more st' = merge_state.more st" by simp
  from rest have rest': "sortingKeys st' = sortingKeys st \<and> outputBatchSize st' = outputBatchSize st \<and>
      (\<forall>b. out = Some b \<longrightarrow> 0 < vsize b \<and> vsize b \<le> outputBatchSize st) \<and>
      (\<not> finished st' \<longrightarrow> (\<forall>b. out = Some b \<longrightarrow> vsize b = outputBatchSize st)) \<and>
      (if finished st' then outRows out = L @ mergeRows (sortingKeys st) (remainders st)
       else outRows out @ L' @ mergeRows (sortingKeys st) (remainders st') =
              L @ mergeRows (sortingKeys st) (remainders st) \<and>
            mergeInv lo st' L' \<and> workLeft st' < workLeft st)"
    unfolding r1 w1 k1 .
  from ml mo rest' show ?thesis by blast
qed


text \<open>The driver ends, and its batches are what was owed.\<close>

lemma driveWith_correct:
  assumes idle: "\<And>s L. mergeInv lo s L \<Longrightarrow> merge_state.more s = x \<Longrightarrow>
                   blocked s = Inr (pollAndReport EmptyFuture s)"
    and call: "\<And>s L. mergeInv lo s L \<Longrightarrow> produce s = mergeLoop (withOutput s)"
  shows "mergeInv lo st3 L \<Longrightarrow> merge_state.more st3 = x \<Longrightarrow>
    blocked st = Inr (pollAndReport f st3) \<Longrightarrow>
    \<exists>n outs st'.
      (\<forall>m \<ge> n. driveWith blocked produce isFinished m st acc = Some (Inr (acc @ outs, st'))) \<and>
      concat (map rowsOf outs) = L @ mergeRows (sortingKeys st3) (remainders st3) \<and>
      (\<forall>b \<in> set outs. 0 < vsize b \<and> vsize b \<le> outputBatchSize st3) \<and>
      (\<forall>b \<in> set (butlast outs). vsize b = outputBatchSize st3) \<and>
      isFinished st'"
proof (induction "workLeft st3" arbitrary: st st3 L acc f rule: less_induct)
  case less
  note inv = less.prems(1) and mo = less.prems(2) and ib = less.prems(3)
  let ?keys = "sortingKeys st3" and ?B = "outputBatchSize st3"
  let ?drive = "driveWith blocked produce isFinished"
  obtain reason f' st1 where pr: "pollAndReport f st3 = (reason, f', st1)"
    using prod_cases3 by blast
  from pollAndReport_ok[OF inv pr]
  have inv1: "mergeInv lo st1 L" and rem1: "remainders st1 = remainders st3"
    and k1: "sortingKeys st1 = ?keys" and b1: "outputBatchSize st1 = ?B"
    and nb: "reason = kNotBlocked \<longrightarrow>
         sourceBlockingFutures st1 = [] \<and> (\<forall>s \<in> set (streams st1). \<not> needData s) \<and>
         workLeft st1 \<le> workLeft st3"
    and bl: "reason \<noteq> kNotBlocked \<longrightarrow> workLeft st1 < workLeft st3"
    by simp_all
  have mo1: "merge_state.more st1 = x"
    using pollAndReport_more[OF pr] mo by simp
  have ib1: "blocked st1 = Inr (pollAndReport EmptyFuture st1)"
    using inv1 mo1 by (rule idle)
  show ?case
  proof (cases "reason = kNotBlocked")
    case False
    with bl have w: "workLeft st1 < workLeft st3" by simp
    from less.hyps[OF w inv1 mo1 ib1, of acc] obtain n outs st' where
      d: "\<forall>m \<ge> n. ?drive m st1 acc = Some (Inr (acc @ outs, st'))"
      and c: "concat (map rowsOf outs) = L @ mergeRows (sortingKeys st1) (remainders st1)"
      and sz: "\<forall>b \<in> set outs. 0 < vsize b \<and> vsize b \<le> outputBatchSize st1"
      and bl1: "\<forall>b \<in> set (butlast outs). vsize b = outputBatchSize st1"
      and fin: "isFinished st'"
      by blast
    have d': "\<forall>m \<ge> Suc n. ?drive m st acc = Some (Inr (acc @ outs, st'))"
    proof (intro allI impI)
      fix m assume "Suc n \<le> m"
      then obtain m' where m: "m = Suc m'" and "n \<le> m'" by (cases m) auto
      with d have "?drive m' st1 acc = Some (Inr (acc @ outs, st'))" by simp
      with m ib pr False show "?drive m st acc = Some (Inr (acc @ outs, st'))"
        by simp
    qed
    have c': "concat (map rowsOf outs) = L @ mergeRows ?keys (remainders st3)"
      using c unfolding k1 rem1 .
    have sz': "\<forall>b \<in> set outs. 0 < vsize b \<and> vsize b \<le> ?B" using sz unfolding b1 .
    have bl': "\<forall>b \<in> set (butlast outs). vsize b = ?B" using bl1 unfolding b1 .
    from d' c' sz' bl' fin show ?thesis by blast
  next
    case True
    with nb have fs1: "sourceBlockingFutures st1 = []"
      and nn1: "\<forall>s \<in> set (streams st1). \<not> needData s"
      and w1: "workLeft st1 \<le> workLeft st3" by simp_all
    from mergeCall_correct[OF inv1 fs1 nn1] call[OF inv1] obtain out st2 L' where
      g: "produce st1 = Inr (out, st2)"
      and k2: "sortingKeys st2 = sortingKeys st1" and b2: "outputBatchSize st2 = outputBatchSize st1"
      and mo2': "merge_state.more st2 = merge_state.more st1"
      and sz2: "\<forall>b. out = Some b \<longrightarrow> 0 < vsize b \<and> vsize b \<le> outputBatchSize st1"
      and full2: "\<not> finished st2 \<longrightarrow> (\<forall>b. out = Some b \<longrightarrow> vsize b = outputBatchSize st1)"
      and post: "if finished st2 then outRows out = L @ mergeRows (sortingKeys st1) (remainders st1)
         else outRows out @ L' @ mergeRows (sortingKeys st1) (remainders st2) =
                L @ mergeRows (sortingKeys st1) (remainders st1) \<and>
              mergeInv lo st2 L' \<and> workLeft st2 < workLeft st1"
      by auto
    have mo2: "merge_state.more st2 = x" using mo2' mo1 by simp
    define outList where "outList = (case out of None \<Rightarrow> [] | Some b \<Rightarrow> [b])"
    have acc': "(case out of None \<Rightarrow> acc | Some b \<Rightarrow> acc @ [b]) = acc @ outList"
      by (cases out) (simp_all add: outList_def)
    have co: "concat (map rowsOf outList) = outRows out"
      by (cases out) (simp_all add: outRows_def outList_def)
    have szo: "\<forall>b \<in> set outList. 0 < vsize b \<and> vsize b \<le> ?B"
      using sz2 b1 by (cases out) (simp_all add: outList_def)
    have blo: "butlast outList = []" by (cases out) (simp_all add: outList_def)
    show ?thesis
    proof (cases "finished st2")
      case fin: True
      have d': "\<forall>m \<ge> Suc 0. ?drive m st acc = Some (Inr (acc @ outList, st2))"
      proof (intro allI impI)
        fix m assume "Suc 0 \<le> m"
        then obtain m' where m: "m = Suc m'" by (cases m) auto
        have "?drive (Suc m') st acc =
            Some (Inr (case out of None \<Rightarrow> acc | Some b \<Rightarrow> acc @ [b], st2))"
          using ib pr True g fin by (simp add: isFinished_def Let_def)
        with m acc'
        show "?drive m st acc = Some (Inr (acc @ outList, st2))"
          by simp
      qed
      from post fin have "outRows out = L @ mergeRows (sortingKeys st1) (remainders st1)" by simp
      then have c': "concat (map rowsOf outList) = L @ mergeRows ?keys (remainders st3)"
        unfolding co k1 rem1 .
      have bl': "\<forall>b \<in> set (butlast outList). vsize b = ?B" unfolding blo by simp
      have f': "isFinished st2" using fin by (simp add: isFinished_def)
      from d' c' szo bl' f' show ?thesis by blast
    next
      case nf: False
      with post have tot: "outRows out @ L' @ mergeRows (sortingKeys st1) (remainders st2) =
                L @ mergeRows (sortingKeys st1) (remainders st1)"
        and inv2: "mergeInv lo st2 L'" and w2: "workLeft st2 < workLeft st1" by simp_all
      from w1 w2 have w: "workLeft st2 < workLeft st3" by simp
      have ib2: "blocked st2 = Inr (pollAndReport EmptyFuture st2)"
        using inv2 mo2 by (rule idle)
      from less.hyps[OF w inv2 mo2 ib2, of "acc @ outList"] obtain n outs st' where
        d: "\<forall>m \<ge> n. ?drive m st2 (acc @ outList) =
               Some (Inr ((acc @ outList) @ outs, st'))"
        and c: "concat (map rowsOf outs) = L' @ mergeRows (sortingKeys st2) (remainders st2)"
        and sz: "\<forall>b \<in> set outs. 0 < vsize b \<and> vsize b \<le> outputBatchSize st2"
        and bl2: "\<forall>b \<in> set (butlast outs). vsize b = outputBatchSize st2"
        and fin: "isFinished st'"
        by blast
      have d': "\<forall>m \<ge> Suc n. ?drive m st acc =
          Some (Inr (acc @ (outList @ outs), st'))"
      proof (intro allI impI)
        fix m assume "Suc n \<le> m"
        then obtain m' where m: "m = Suc m'" and "n \<le> m'" by (cases m) auto
        with d have r: "?drive m' st2 (acc @ outList) =
            Some (Inr (acc @ (outList @ outs), st'))" by simp
        have "?drive (Suc m') st acc =
            ?drive m' st2 (case out of None \<Rightarrow> acc | Some b \<Rightarrow> acc @ [b])"
          using ib pr True g nf by (simp add: isFinished_def Let_def)
        with m acc' r
        show "?drive m st acc = Some (Inr (acc @ (outList @ outs), st'))"
          by simp
      qed
      have b23: "outputBatchSize st2 = ?B" using b2 b1 by simp
      have "concat (map rowsOf (outList @ outs)) =
          outRows out @ L' @ mergeRows (sortingKeys st1) (remainders st2)"
        using co c k2 by simp
      also have "\<dots> = L @ mergeRows (sortingKeys st1) (remainders st1)" by (rule tot)
      also have "\<dots> = L @ mergeRows ?keys (remainders st3)" unfolding k1 rem1 ..
      finally have c': "concat (map rowsOf (outList @ outs)) =
          L @ mergeRows ?keys (remainders st3)" .
      have sz': "\<forall>b \<in> set (outList @ outs). 0 < vsize b \<and> vsize b \<le> ?B"
        using szo sz unfolding b23 by auto
      have fullo: "\<forall>b \<in> set outList. vsize b = ?B"
        using full2 nf b1 by (cases out) (simp_all add: outList_def)
      have bl': "\<forall>b \<in> set (butlast (outList @ outs)). vsize b = ?B"
      proof (cases "outs = []")
        case True
        with blo show ?thesis by simp
      next
        case False
        with fullo bl2 show ?thesis unfolding b23 by (auto simp: butlast_append)
      qed
      from d' c' sz' bl' fin show ?thesis by blast
    qed
  qed
qed


lemma isBlocked_tail:
  "isBlocked hook st =
     (case hook st of
        Inl e \<Rightarrow> Inl e
      | Inr (reason, future, st1) \<Rightarrow>
          if reason \<noteq> kNotBlocked then Inr (reason, future, st1)
          else if sources st1 = [] then Inr (kNotBlocked, future, st1\<lparr>finished := True\<rparr>)
          else
            (case startSources st1 of
               Inl e \<Rightarrow> Inl e
             | Inr st2 \<Rightarrow>
                 Inr (pollAndReport future
                        (if streams st2 = [] \<and> length (sources st2) > 1
                         then initializeTreeOfLosers st2 else st2))))"
  by (auto simp: isBlocked_def pollAndReport_def Let_def split: sum.splits prod.splits)


lemma mergeInv_started:
  assumes inv: "mergeInv lo st L" and lo: "1 \<le> lo"
  shows "sources st \<noteq> [] \<and> streams st \<noteq> [] \<and> startSources st = Inr st"
proof -
  from inv have n: "lo \<le> length (sources st)" and ns: "numStartedSources st = length (sources st)"
    and la: "list_all2 (cursorOk (outputBatchSize st) (outputType st) (sortingKeys st)
               (outputSize st)) (streams st) (sources st)"
    by (simp_all add: mergeInv_def)
  from n lo have ne: "sources st \<noteq> []" by auto
  from la ne have "streams st \<noteq> []" by (auto dest: list_all2_lengthD)
  with ne ns show ?thesis by (simp add: startSources_def)
qed

lemma isBlocked_idle:
  assumes inv: "mergeInv lo st L" and lo: "1 \<le> lo"
    and hook: "hook st = Inr (kNotBlocked, EmptyFuture, st)"
  shows "isBlocked hook st = Inr (pollAndReport EmptyFuture st)"
  using mergeInv_started[OF inv lo] hook by (simp add: isBlocked_tail)


lemma getOutput_call:
  assumes "mergeInv 2 st L"
  shows "getOutput st = mergeLoop (withOutput st)"
  using assms by (simp add: mergeInv_def getOutput_def withOutput_def)


lemma newSourceStream_cursor:
  assumes "wfSource ncols src"
  shows "cursorOk B ncols keys 0 (newSourceStream keys B) (sourceStart src)"
  using assms
  by (simp add: cursorOk_def newSourceStream_def sourceStart_def wfSource_def
      selectedRows_replicate_False)

lemma newSourceStream_remaining:
  "remainingRows (newSourceStream keys B) (sourceStart src) = pendingRows src"
  by (simp add: remainingRows_def streamRows_def newSourceStream_def sourceStart_def
      pendingRows_def)

text \<open>Starting the attached sources and building the tournament sets up the invariant.\<close>

lemma startedMerge_inv:
  assumes ns: "notStarted st" and n: "lo \<le> length (sources st)"
    and wf: "\<forall>src \<in> set (sources st). wfSource (outputType st) src"
    and ch: "\<forall>key \<in> set (sortingKeys st). fst key < outputType st"
    and B: "0 < outputBatchSize st"
  shows "mergeInv lo (startedMerge st) [] \<and>
      remainders (startedMerge st) = map pendingRows (sources st) \<and>
      sortingKeys (startedMerge st) = sortingKeys st \<and>
      outputBatchSize (startedMerge st) = outputBatchSize st \<and>
      merge_state.more (startedMerge st) = merge_state.more st"
proof -
  let ?srcs = "sources st"
  let ?B = "outputBatchSize st" and ?keys = "sortingKeys st" and ?n = "outputType st"
  let ?ss = "map (\<lambda>source. newSourceStream ?keys ?B) (map sourceStart ?srcs)"
  let ?st3 = "st\<lparr>sources := map sourceStart ?srcs, numStartedSources := length ?srcs,
                  streams := ?ss, treeOfLosers := True\<rparr>"
  from ns have e: "streams st = []" and o: "outputBatch st = None" "outputSize st = 0"
    and nf: "\<not> finished st"
    by (simp_all add: notStarted_def)
  have s3: "startedMerge st = ?st3"
    using e by (simp add: startedMerge_def initializeTreeOfLosers_def)
  have la: "list_all2 (cursorOk ?B ?n ?keys 0) ?ss (map sourceStart ?srcs)"
    using wf by (simp add: list_all2_conv_all_nth newSourceStream_cursor)
  have nosel: "\<forall>s \<in> set ?ss. pendingOk [] s"
    by (auto simp: pendingOk_def newSourceStream_def selectedRows_replicate_False)
  have inv: "mergeInv lo ?st3 []"
    using la nosel n ch B o nf by (simp add: mergeInv_def copiedOk_def outputOk_def)
  have rem: "remainders ?st3 = map pendingRows ?srcs"
    by (intro nth_equalityI) (simp_all add: remainders_def newSourceStream_remaining)
  from inv rem show ?thesis unfolding s3 by simp
qed

lemma isBlocked_attached:
  assumes hook: "hook st = Inr (kNotBlocked, f, st1)"
    and ns: "notStarted st1" and n: "2 \<le> length (sources st1)"
  shows "isBlocked hook st = Inr (pollAndReport f (startedMerge st1))"
proof -
  from n have ne: "sources st1 \<noteq> []" by auto
  from ns ne n hook show ?thesis
    by (simp add: isBlocked_tail startSources_def notStarted_def startedMerge_def)
qed


text \<open>
  The driver over the operator as the source has it, and over the general path, once the
  hook has attached the sources and adds nothing more.
\<close>

lemma drive_merges:
  assumes attach: "hook st = Inr (kNotBlocked, f, st1)"
    and idle: "\<And>s. sources s \<noteq> [] \<Longrightarrow> merge_state.more s = merge_state.more st1 \<Longrightarrow>
                 hook s = Inr (kNotBlocked, EmptyFuture, s)"
    and ns: "notStarted st1" and n: "2 \<le> length (sources st1)"
    and wf: "\<forall>src \<in> set (sources st1). wfSource (outputType st1) src"
    and ch: "\<forall>key \<in> set (sortingKeys st1). fst key < outputType st1"
    and B: "0 < outputBatchSize st1"
  shows "\<exists>n outs st'.
      (\<forall>m \<ge> n. drive hook m st [] = Some (Inr (outs, st'))) \<and>
      concat (map rowsOf outs) = mergeRows (sortingKeys st1) (map pendingRows (sources st1)) \<and>
      (\<forall>b \<in> set outs. 0 < vsize b \<and> vsize b \<le> outputBatchSize st1) \<and>
      (\<forall>b \<in> set (butlast outs). vsize b = outputBatchSize st1) \<and>
      isFinished st'"
proof -
  let ?st3 = "startedMerge st1"
  from startedMerge_inv[OF ns n wf ch B]
  have inv: "mergeInv 2 ?st3 []" and rem: "remainders ?st3 = map pendingRows (sources st1)"
    and k: "sortingKeys ?st3 = sortingKeys st1" and b: "outputBatchSize ?st3 = outputBatchSize st1"
    and mo: "merge_state.more ?st3 = merge_state.more st1"
    by simp_all
  have i: "isBlocked hook s = Inr (pollAndReport EmptyFuture s)"
    if "mergeInv 2 s L" and "merge_state.more s = merge_state.more st1" for s L
  proof -
    from mergeInv_started[OF that(1)] have "sources s \<noteq> []" by simp
    from idle[OF this that(2)] show ?thesis
      by (intro isBlocked_idle[OF that(1)]) simp_all
  qed
  have c: "getOutput s = mergeLoop (withOutput s)" if "mergeInv 2 s L" for s L
    using that by (rule getOutput_call)
  have a: "isBlocked hook st = Inr (pollAndReport f ?st3)"
    using attach ns n by (rule isBlocked_attached[where hook = hook and st = st])
  from driveWith_correct[of 2 "merge_state.more st1" "isBlocked hook" getOutput ?st3 "[]" st f "[]",
      OF i c inv mo a]
  show ?thesis
    unfolding rem k b by (simp add: drive_driveWith)
qed



subsection \<open>The output of the merge\<close>

lemma drive_more_fuel:
  "drive hook n st acc = Some r \<Longrightarrow> n \<le> m \<Longrightarrow> drive hook m st acc = Some r"
proof (induction n arbitrary: m st acc)
  case 0
  then show ?case by simp
next
  case (Suc n)
  then obtain m' where m: "m = Suc m'" and le: "n \<le> m'"
    by (cases m) auto
  from Suc.prems(1) show ?case
    unfolding m
    by (auto simp: Let_def Suc.IH[OF _ le] split: sum.splits prod.splits if_splits)
qed

lemma drive_outputs_at:
  assumes d: "\<forall>m \<ge> n. drive hook m st acc = Some (Inr (outs, st'))"
    and k: "map_option (map_sum id fst) (drive hook k st acc) = Some (Inr outs')"
  shows "outs = outs'"
proof -
  from k obtain r where r: "drive hook k st acc = Some r"
    by (cases "drive hook k st acc") auto
  from drive_more_fuel[OF r, of "max n k"] d have "r = Inr (outs, st')"
    by simp
  with k r show ?thesis by simp
qed

lemma local_hook_idle:
  "sources s \<noteq> [] \<Longrightarrow> localAddMergeSources s = Inr (kNotBlocked, EmptyFuture, s)"
  by (simp add: localAddMergeSources_def)

lemma exchange_hook_idle:
  "noMoreSplits s \<Longrightarrow> exchangeAddMergeSources lo hi s = Inr (kNotBlocked, EmptyFuture, s)"
  by (simp add: exchangeAddMergeSources_def)

lemma noMoreSplits_more:
  fixes s t :: merge_exchange_state
  shows "merge_state.more s = merge_state.more t \<Longrightarrow> noMoreSplits s = noMoreSplits t"
  by (cases s, cases t) simp

text \<open>
  Claim C1, amended. Let the hook of the subclass attach \<open>N \<ge> 2\<close> sources in one call
  and add nothing afterwards (\<open>LocalMerge\<close> does so always, \<open>MergeExchange\<close> once its splits
  have all arrived). Let every batch of every source have the operator's row type and at
  least one row, let the sort keys lie inside the row type, and let the output batch size be
  at least one. Then the host drives the operator to its end, and the batches that
  \<open>getOutput\<close> returned hold, put end to end, the merge of the inputs: as many rows as the
  inputs hold (the same rows, as a multiset), in non-decreasing order under the sort keys
  when every input is sorted. Every batch has between one and \<open>outputBatchSize\<close> rows, and
  every batch but the last has exactly \<open>outputBatchSize\<close> rows.
\<close>

theorem merge_output_is_the_sorted_merge:
  assumes attach: "hook st = Inr (kNotBlocked, f, st1)"
    and idle: "\<And>s. sources s \<noteq> [] \<Longrightarrow> merge_state.more s = merge_state.more st1 \<Longrightarrow>
                 hook s = Inr (kNotBlocked, EmptyFuture, s)"
    and new: "notStarted st1"
    and n: "2 \<le> length (sources st1)"
    and wf: "\<forall>src \<in> set (sources st1). wfSource (outputType st1) src"
    and sorted: "\<forall>src \<in> set (sources st1).
                   sorted_wrt (rowLe (sortingKeys st1)) (pendingRows src)"
    and ch: "\<forall>key \<in> set (sortingKeys st1). fst key < outputType st1"
    and B: "0 < outputBatchSize st1"
  shows "\<exists>n outs st'.
      (\<forall>m \<ge> n. drive hook m st [] = Some (Inr (outs, st'))) \<and>
      isFinished st' \<and>
      concat (map rowsOf outs) =
        mergeRows (sortingKeys st1) (map pendingRows (sources st1)) \<and>
      length (concat (map rowsOf outs)) =
        sum_list (map (\<lambda>src. length (pendingRows src)) (sources st1)) \<and>
      mset (concat (map rowsOf outs)) = mset (concat (map pendingRows (sources st1))) \<and>
      sorted_wrt (rowLe (sortingKeys st1)) (concat (map rowsOf outs)) \<and>
      (\<forall>b \<in> set outs. 0 < vsize b \<and> vsize b \<le> outputBatchSize st1) \<and>
      (\<forall>b \<in> set (butlast outs). vsize b = outputBatchSize st1)"
proof -
  let ?srcs = "sources st1" and ?keys = "sortingKeys st1"
  have "\<exists>n outs st'.
      (\<forall>m \<ge> n. drive hook m st [] = Some (Inr (outs, st'))) \<and>
      concat (map rowsOf outs) = mergeRows ?keys (map pendingRows ?srcs) \<and>
      (\<forall>b \<in> set outs. 0 < vsize b \<and> vsize b \<le> outputBatchSize st1) \<and>
      (\<forall>b \<in> set (butlast outs). vsize b = outputBatchSize st1) \<and>
      isFinished st'"
    using attach idle new n wf ch B by (rule drive_merges[where hook = hook and st = st])
  then obtain n outs st' where
    d: "\<forall>m \<ge> n. drive hook m st [] = Some (Inr (outs, st'))"
    and c: "concat (map rowsOf outs) = mergeRows ?keys (map pendingRows ?srcs)"
    and sz: "\<forall>b \<in> set outs. 0 < vsize b \<and> vsize b \<le> outputBatchSize st1"
    and bl: "\<forall>b \<in> set (butlast outs). vsize b = outputBatchSize st1"
    and fin: "isFinished st'"
    by blast
  let ?rows = "concat (map rowsOf outs)"
  have len: "length ?rows = sum_list (map (\<lambda>src. length (pendingRows src)) ?srcs)"
    unfolding c by (simp add: length_mergeRows comp_def)
  have ms: "mset ?rows = mset (concat (map pendingRows ?srcs))"
    unfolding c by (rule mset_mergeRows)
  have so: "sorted_wrt (rowLe ?keys) ?rows"
    unfolding c using sorted by (intro sorted_mergeRows) simp
  from d fin c len ms so sz bl show ?thesis by blast
qed

lemma scenario_run:
  "map_option (map_sum id fst) (drive localAddMergeSources 20 scenarioMerge []) =
     Some (Inr [intBatch [1, 2, 3, 4], intBatch [5, 6, 7, 8], intBatch [9]])"
  by code_simp

lemma remote_run:
  "map_option (map_sum id fst)
     (drive (exchangeAddMergeSources 1048576 33554432) 20 remoteExchange []) =
     Some (Inr [intBatch [1, 2, 3]])"
  by code_simp

theorem merge_output_is_the_sorted_merge_witness:
  "(\<exists>n st'.
      (\<forall>m \<ge> n. drive localAddMergeSources m scenarioMerge [] =
         Some (Inr ([intBatch [1, 2, 3, 4], intBatch [5, 6, 7, 8], intBatch [9]], st'))) \<and>
      isFinished st') \<and>
   mergeRows (sortingKeys scenarioMerge) (map pendingRows (localMergeSources scenarioTask)) =
     [[Some 1], [Some 2], [Some 3], [Some 4], [Some 5], [Some 6], [Some 7], [Some 8], [Some 9]] \<and>
   (\<exists>n st'.
      (\<forall>m \<ge> n. drive (exchangeAddMergeSources 1048576 33554432) m remoteExchange [] =
         Some (Inr ([intBatch [1, 2, 3]], st'))) \<and>
      isFinished st')"
proof -
  let ?st1 = "scenarioMerge\<lparr>sources := localMergeSources scenarioTask\<rparr>"
  have attach: "localAddMergeSources scenarioMerge = Inr (kNotBlocked, EmptyFuture, ?st1)"
    by (simp add: localAddMergeSources_def scenarioMerge_def)
  have idle: "localAddMergeSources s = Inr (kNotBlocked, EmptyFuture, s)"
    if "sources s \<noteq> []" and "merge_state.more s = merge_state.more ?st1" for s :: merge_state
    using that(1) by (rule local_hook_idle)
  have new: "notStarted ?st1" by code_simp
  have n: "2 \<le> length (sources ?st1)" by code_simp
  have wf: "\<forall>src \<in> set (sources ?st1). wfSource (outputType ?st1) src" by code_simp
  have so: "\<forall>src \<in> set (sources ?st1). sorted_wrt (rowLe (sortingKeys ?st1)) (pendingRows src)"
    by code_simp
  have ch: "\<forall>key \<in> set (sortingKeys ?st1). fst key < outputType ?st1" by code_simp
  have B: "0 < outputBatchSize ?st1" by code_simp
  have m: "mergeRows (sortingKeys scenarioMerge) (map pendingRows (localMergeSources scenarioTask)) =
      [[Some 1], [Some 2], [Some 3], [Some 4], [Some 5], [Some 6], [Some 7], [Some 8], [Some 9]]"
    by code_simp
  from merge_output_is_the_sorted_merge[of localAddMergeSources scenarioMerge EmptyFuture ?st1,
      OF attach idle new n wf so ch B]
  obtain k outs st' where
    d: "\<forall>m \<ge> k. drive localAddMergeSources m scenarioMerge [] = Some (Inr (outs, st'))"
    and fin: "isFinished st'"
    by blast
  from drive_outputs_at[OF d scenario_run]
  have outs: "outs = [intBatch [1, 2, 3, 4], intBatch [5, 6, 7, 8], intBatch [9]]" .
  from d fin have a: "\<exists>n st'.
      (\<forall>m \<ge> n. drive localAddMergeSources m scenarioMerge [] =
         Some (Inr ([intBatch [1, 2, 3, 4], intBatch [5, 6, 7, 8], intBatch [9]], st'))) \<and>
      isFinished st'"
    unfolding outs by blast
  let ?hook = "exchangeAddMergeSources 1048576 33554432"
  obtain g xt1 where run: "?hook remoteExchange = Inr (kNotBlocked, g, xt1)"
    and srcs: "map events (sources xt1) = [[Batch (intBatch [1, 3])], [Batch (intBatch [2])]]"
    and nm: "noMoreSplits xt1"
    and new': "notStarted xt1"
    and ty: "outputType xt1 = 1" and ks: "sortingKeys xt1 = [(0, ascNullsFirst)]"
    and bs: "outputBatchSize xt1 = 4"
    by (simp add: exchangeAddMergeSources_def remoteExchange_def exampleExchange_def
        exampleCtx_def exampleTask_def exchangeSplitLoop.simps getSplitOrFuture_def Let_def
        createMergeExchangeSource_def notStarted_def numeral_2_eq_2)
  have idle': "?hook s = Inr (kNotBlocked, EmptyFuture, s)"
    if "sources s \<noteq> []" and "merge_state.more s = merge_state.more xt1" for s
    using noMoreSplits_more[OF that(2)] nm by (simp add: exchange_hook_idle)
  from srcs have l2: "length (sources xt1) = 2"
    using length_map[of events "sources xt1"] by simp
  then obtain sa sb where ss: "sources xt1 = [sa, sb]"
    by (cases "sources xt1"; cases "tl (sources xt1)") auto
  with srcs have ev: "events sa = [Batch (intBatch [1, 3])]" "events sb = [Batch (intBatch [2])]"
    by simp_all
  have n': "2 \<le> length (sources xt1)" using l2 by simp
  have wfa: "wfSource 1 sa" "wfSource 1 sb"
    using ev by (simp_all add: wfSource_def wfEvent_def wfBatch_def intBatch_def)
  have wf': "\<forall>src \<in> set (sources xt1). wfSource (outputType xt1) src"
    using wfa ss ty by simp
  have pra: "pendingRows sa = [[Some 1], [Some 3]]" "pendingRows sb = [[Some 2]]"
    using ev by (simp_all add: pendingRows_def eventRows_def rowsOf_def rowAt_def intBatch_def
        numeral_2_eq_2)
  have so': "\<forall>src \<in> set (sources xt1). sorted_wrt (rowLe (sortingKeys xt1)) (pendingRows src)"
    unfolding ss ks using pra
    by (simp add: rowLe_def ascNullsFirst_def compareValues_def)
  have ch': "\<forall>key \<in> set (sortingKeys xt1). fst key < outputType xt1"
    using ks ty by simp
  have B': "0 < outputBatchSize xt1" using bs by simp
  from merge_output_is_the_sorted_merge[of ?hook remoteExchange g xt1,
      OF run idle' new' n' wf' so' ch' B']
  obtain k' outs' xt' where
    d': "\<forall>m \<ge> k'. drive ?hook m remoteExchange [] = Some (Inr (outs', xt'))"
    and fin': "isFinished xt'"
    by blast
  from drive_outputs_at[OF d' remote_run] have outs': "outs' = [intBatch [1, 2, 3]]" .
  from d' fin' have b: "\<exists>n st'.
      (\<forall>m \<ge> n. drive ?hook m remoteExchange [] = Some (Inr ([intBatch [1, 2, 3]], st'))) \<and>
      isFinished st'"
    unfolding outs' by blast
  from a m b show ?thesis by blast
qed

text \<open>
  Claim C1 as it is stated fails on a source that delivers an empty batch:
  \<open>fetchMoreData\<close> reads the empty batch as the end of the stream (line 288), and the rows
  that the source delivers after it are never merged. The two inputs are sorted and hold
  three rows; the operator returns the one batch [1, 2] and is finished.
\<close>

theorem empty_batch_ends_the_stream:
  "localMergeSources (task gapMerge) = [gapSourceA, gapSourceB] \<and>
   pendingRows gapSourceA = [[Some 1], [Some 5]] \<and> pendingRows gapSourceB = [[Some 2]] \<and>
   sorted_wrt (rowLe (sortingKeys gapMerge)) (pendingRows gapSourceA) \<and>
   sorted_wrt (rowLe (sortingKeys gapMerge)) (pendingRows gapSourceB) \<and>
   map_option (map_sum id (map_prod id isFinished)) (drive localAddMergeSources 20 gapMerge []) =
     Some (Inr ([intBatch [1, 2]], True)) \<and>
   length (concat (map rowsOf [intBatch [1, 2]])) <
     length (pendingRows gapSourceA) + length (pendingRows gapSourceB)"
  by code_simp





subsection \<open>The single source\<close>




















subsection \<open>The selection bitmaps of the streams\<close>



































end
